theory Spec2Isabelle
  imports Main "HOL-Library.Sublist"
begin

section \<open>JavaScript values, JSON documents and stored strings\<close>

text \<open>
  The adapter stores values of TypeScript type \<open>unknown\<close>. The model covers plain data:
  \<open>undefined\<close>, \<open>null\<close>, booleans, finite numbers (as integers), strings, arrays and
  objects (property lists in insertion order). Non-finite numbers, dates, functions and other
  exotic objects are outside the model.
\<close>

datatype jsvalue =
    VUndefined
  | VNull
  | VBool bool
  | VNumber int
  | VString string
  | VArray "jsvalue list"
  | VObject "(string \<times> jsvalue) list"

text \<open>
  A JSON document: what a JSON text denotes. There is no \<open>undefined\<close> in JSON. A document
  stands for a text as \<open>JSON.stringify\<close> writes it from the values above: its numbers are
  integers that a double holds, and the properties of an object have distinct names, in the
  order in which JavaScript lists them. A text written by other code with a number that
  \<open>JSON.parse\<close> rounds, with a repeated property name, or with integer-like names out of
  order, is outside the model.
\<close>

datatype json =
    JNull
  | JBool bool
  | JNumber int
  | JString string
  | JArray "json list"
  | JObject "(string \<times> json) list"

text \<open>
  A string held by \<open>window.localStorage\<close>. The adapter writes only the output of
  \<open>JSON.stringify\<close> and reads only through \<open>JSON.parse\<close>, so a stored string is
  represented by the document it denotes; \<open>NotJson\<close> is a string that \<open>JSON.parse\<close>
  rejects (written by other code sharing the medium).
\<close>

datatype domstring = Json json | NotJson string

text \<open>
  What the code can throw. \<open>Error\<close> carries the message of the adapter's own
  \<open>throw Error(msg)\<close>; \<open>DOMException\<close> is raised by the medium (for instance
  \<open>QuotaExceededError\<close>, \<open>SecurityError\<close>); \<open>SyntaxError\<close> by \<open>JSON.parse\<close>;
  \<open>TypeError\<close> by destructuring \<open>null\<close>. \<open>IllTyped\<close> is not a JavaScript exception:
  it marks a run in which a value of static type \<open>string[]\<close> that is not an array of
  strings (the cast \<open>as string[]\<close> is unchecked) is used as one. Such a value comes
  only from a key-index record that other code wrote. The source goes on there (it raises a
  \<open>TypeError\<close>, or completes and writes the value back with the key added or filtered out);
  the model stops, and says nothing about the source from that point on.
\<close>

datatype error =
    Error string
  | SyntaxError
  | TypeError
  | DOMException string
  | IllTyped

text \<open>
  \<open>JSON.stringify\<close> on plain data (ECMA-262, SerializeJSONProperty): \<open>undefined\<close> has no
  JSON text, an \<open>undefined\<close> array element is written as \<open>null\<close>, and a property whose
  value is \<open>undefined\<close> is left out.
\<close>

primrec JSON_stringify :: "jsvalue \<Rightarrow> json option" where
  "JSON_stringify VUndefined = None"
| "JSON_stringify VNull = Some JNull"
| "JSON_stringify (VBool b) = Some (JBool b)"
| "JSON_stringify (VNumber n) = Some (JNumber n)"
| "JSON_stringify (VString s) = Some (JString s)"
| "JSON_stringify (VArray vs) =
     Some (JArray (map (\<lambda>r. case r of None \<Rightarrow> JNull | Some j \<Rightarrow> j) (map JSON_stringify vs)))"
| "JSON_stringify (VObject ps) =
     Some (JObject (concat (map (\<lambda>(k, r). case r of None \<Rightarrow> [] | Some j \<Rightarrow> [(k, j)])
                                (map (map_prod id JSON_stringify) ps))))"

text \<open>The value that \<open>JSON.parse\<close> builds from such a document.\<close>

primrec from_json :: "json \<Rightarrow> jsvalue" where
  "from_json JNull = VNull"
| "from_json (JBool b) = VBool b"
| "from_json (JNumber n) = VNumber n"
| "from_json (JString s) = VString s"
| "from_json (JArray js) = VArray (map from_json js)"
| "from_json (JObject ps) = VObject (map (map_prod id from_json) ps)"

definition JSON_parse :: "domstring \<Rightarrow> error + jsvalue" where
  "JSON_parse t = (case t of NotJson s \<Rightarrow> Inl SyntaxError | Json j \<Rightarrow> Inr (from_json j))"

text \<open>
  The string that \<open>localStorage.setItem(k, JSON.stringify(v))\<close> stores: \<open>setItem\<close> converts
  its argument to a string, so \<open>undefined\<close> would be stored as the text \<open>undefined\<close>.
\<close>

definition stringify :: "jsvalue \<Rightarrow> domstring" where
  "stringify v = (case JSON_stringify v of None \<Rightarrow> NotJson ''undefined'' | Some j \<Rightarrow> Json j)"

text \<open>\<open>structuredClone\<close> makes a deep copy; plain data has no identity in the model.\<close>

definition structuredClone :: "jsvalue \<Rightarrow> jsvalue" where
  "structuredClone v = v"

text \<open>Reading a value of static type \<open>string[]\<close> as the list of its strings.\<close>

fun the_strings :: "jsvalue list \<Rightarrow> string list option" where
  "the_strings [] = Some []"
| "the_strings (VString s # vs) = map_option ((#) s) (the_strings vs)"
| "the_strings (_ # vs) = None"

definition as_string_array :: "jsvalue \<Rightarrow> error + string list" where
  "as_string_array v =
     (case v of
        VArray vs \<Rightarrow> (case the_strings vs of None \<Rightarrow> Inl IllTyped | Some ks \<Rightarrow> Inr ks)
      | _ \<Rightarrow> Inl IllTyped)"

text \<open>A \<open>string[]\<close> as a value, for \<open>JSON.stringify(keysArray)\<close>.\<close>

definition of_string_array :: "string list \<Rightarrow> jsvalue" where
  "of_string_array ks = VArray (map VString ks)"

text \<open>
  The destructuring \<open>const { value } = ... as WrappedValue\<close>: reading property \<open>value\<close> of
  \<open>null\<close> raises, an object gives the property or \<open>undefined\<close>, and any other plain value
  has no such property. Property names are distinct, so the property is the first one found.
\<close>

definition destructure_value :: "jsvalue \<Rightarrow> error + jsvalue" where
  "destructure_value v =
     (case v of
        VNull \<Rightarrow> Inl TypeError
      | VUndefined \<Rightarrow> Inl TypeError
      | VObject ps \<Rightarrow> (case map_of ps ''value'' of None \<Rightarrow> Inr VUndefined | Some x \<Rightarrow> Inr x)
      | _ \<Rightarrow> Inr VUndefined)"

section \<open>The medium: \<open>window.localStorage\<close>\<close>

text \<open>
  The medium is a flat map from strings to strings, shared by every instance. Each call on
  \<open>window.localStorage\<close> may raise; \<open>faults\<close> is the outcome of the calls to come, one
  entry per call (\<open>Some name\<close>: the call raises that \<open>DOMException\<close> and changes nothing),
  and a call beyond the end of the list succeeds.
\<close>

record medium =
  items :: "string \<rightharpoonup> domstring"
  faults :: "string option list"

definition next_call :: "medium \<Rightarrow> string option \<times> medium" where
  "next_call m = (case faults m of [] \<Rightarrow> (None, m) | f # fs \<Rightarrow> (f, m\<lparr>faults := fs\<rparr>))"

definition localStorage_getItem :: "string \<Rightarrow> medium \<Rightarrow> (error + domstring option) \<times> medium" where
  "localStorage_getItem k m =
     (case next_call m of
        (Some n, m') \<Rightarrow> (Inl (DOMException n), m')
      | (None, m') \<Rightarrow> (Inr (items m' k), m'))"

definition localStorage_setItem :: "string \<Rightarrow> domstring \<Rightarrow> medium \<Rightarrow> (error + unit) \<times> medium" where
  "localStorage_setItem k t m =
     (case next_call m of
        (Some n, m') \<Rightarrow> (Inl (DOMException n), m')
      | (None, m') \<Rightarrow> (Inr (), m'\<lparr>items := (items m')(k \<mapsto> t)\<rparr>))"

definition localStorage_removeItem :: "string \<Rightarrow> medium \<Rightarrow> (error + unit) \<times> medium" where
  "localStorage_removeItem k m =
     (case next_call m of
        (Some n, m') \<Rightarrow> (Inl (DOMException n), m')
      | (None, m') \<Rightarrow> (Inr (), m'\<lparr>items := (items m')(k := None)\<rparr>))"

text \<open>The outcome of the \<open>i\<close>-th call to come: the exception it raises, if it raises.\<close>

definition outcome :: "medium \<Rightarrow> nat \<Rightarrow> string option" where
  "outcome m i = (if i < length (faults m) then faults m ! i else None)"

section \<open>The adapter: class \<open>LocalStorageInterface\<close>\<close>

definition defaultUseCache :: bool where
  "defaultUseCache = False"

text \<open>
  Modelled from the spec: \<open>defaultStorageName\<close> is imported from the package
  \<open>storage-facade\<close>, which is not part of this repository; the documentation gives the
  default name as \<open>storage\<close>.
\<close>

definition defaultStorageName :: string where
  "defaultStorageName = ''storage''"

definition interfaceName :: string where
  "interfaceName = ''LocalStorageInterface''"

record LocalStorageInterface =
  storageName :: string
  keysArrayName :: string
  useCache :: bool
  keysArrayCache :: jsvalue
  keyValueCache :: "string \<rightharpoonup> jsvalue"

text \<open>
  \<open>keysArrayCache\<close> is declared \<open>string[]\<close>, but \<open>initSync\<close> and \<open>getKeysArray\<close>
  assign it whatever \<open>JSON.parse\<close> returns, so the field holds a value.

  The fields of \<open>new LocalStorageInterface()\<close>:
\<close>

definition new_LocalStorageInterface :: LocalStorageInterface where
  "new_LocalStorageInterface =
     \<lparr>storageName = '''', keysArrayName = '''', useCache = defaultUseCache,
      keysArrayCache = of_string_array [], keyValueCache = Map.empty\<rparr>"

text \<open>The fields of the \<open>setup\<close> object that \<open>initSync\<close> reads; \<open>None\<close> is an omitted field.\<close>

record Setup =
  setup_name :: "string option"
  setup_useCache :: "bool option"

text \<open>
  A method returns a value or throws, and in both cases leaves the instance and the medium
  as they are at that point.
\<close>

type_synonym 'a result = "(error + 'a) \<times> LocalStorageInterface \<times> medium"

definition getKeysArray :: "LocalStorageInterface \<Rightarrow> medium \<Rightarrow> jsvalue result" where
  "getKeysArray this m =
     (case localStorage_getItem (keysArrayName this) m of
        (Inl e, m1) \<Rightarrow> (Inl e, this, m1)
      | (Inr None, m1) \<Rightarrow>
          (Inl (Error (''storage-facade: '' @ interfaceName @ '': '' @
                       [CHR 0x27] @ keysArrayName this @ [CHR 0x27] @ '' not found.'')),
           this, m1)
      | (Inr (Some keysStr), m1) \<Rightarrow>
          (case JSON_parse keysStr of
             Inl e \<Rightarrow> (Inl e, this, m1)
           | Inr keys \<Rightarrow>
               (Inr keys, (if useCache this then this\<lparr>keysArrayCache := keys\<rparr> else this), m1)))"

text \<open>The body of the \<open>try\<close> block of \<open>initSync\<close>.\<close>

definition initSync_try :: "LocalStorageInterface \<Rightarrow> medium \<Rightarrow> unit result" where
  "initSync_try this m =
     (case localStorage_getItem (keysArrayName this) m of
        (Inl e, m1) \<Rightarrow> (Inl e, this, m1)
      | (Inr None, m1) \<Rightarrow>
          (case localStorage_setItem (keysArrayName this)
                  (stringify (of_string_array [])) m1 of
             (Inl e, m2) \<Rightarrow> (Inl e, this, m2)
           | (Inr _, m2) \<Rightarrow> (Inr (), this, m2))
      | (Inr (Some keysStr), m1) \<Rightarrow>
          (if useCache this then
             (case JSON_parse keysStr of
                Inl e \<Rightarrow> (Inl e, this, m1)
              | Inr keysArray \<Rightarrow> (Inr (), this\<lparr>keysArrayCache := keysArray\<rparr>, m1))
           else (Inr (), this, m1)))"

text \<open>
  \<open>initSync\<close> returns \<open>Error | undefined\<close>: \<open>Some e\<close> is whatever the \<open>try\<close> block threw,
  \<open>None\<close> is \<open>undefined\<close>.
\<close>

definition initSync ::
  "Setup \<Rightarrow> LocalStorageInterface \<Rightarrow> medium \<Rightarrow> error option \<times> LocalStorageInterface \<times> medium"
where
  "initSync setup this m =
     (let this1 = this\<lparr>storageName :=
                    (case setup_name setup of None \<Rightarrow> defaultStorageName | Some n \<Rightarrow> n)\<rparr>;
          this2 = this1\<lparr>useCache :=
                    (case setup_useCache setup of None \<Rightarrow> defaultUseCache | Some b \<Rightarrow> b)\<rparr>;
          this3 = this2\<lparr>keysArrayName := ''__'' @ storageName this2 @ ''-keys-array''\<rparr>
      in case initSync_try this3 m of
           (Inl e, this4, m') \<Rightarrow> (Some e, this4, m')
         | (Inr _, this4, m') \<Rightarrow> (None, this4, m'))"

definition keyName :: "LocalStorageInterface \<Rightarrow> string \<Rightarrow> string" where
  "keyName this key = storageName this @ ''-'' @ key"

definition getItemSync :: "LocalStorageInterface \<Rightarrow> string \<Rightarrow> medium \<Rightarrow> jsvalue result" where
  "getItemSync this key m =
     (case (if useCache this then keyValueCache this key else None) of
        Some cached \<Rightarrow> (Inr (structuredClone cached), this, m)
      | None \<Rightarrow>
          (case localStorage_getItem (keyName this key) m of
             (Inl e, m1) \<Rightarrow> (Inl e, this, m1)
           | (Inr None, m1) \<Rightarrow> (Inr VUndefined, this, m1)
           | (Inr (Some valueStr), m1) \<Rightarrow>
               (case JSON_parse valueStr of
                  Inl e \<Rightarrow> (Inl e, this, m1)
                | Inr parsed \<Rightarrow>
                    (case destructure_value parsed of
                       Inl e \<Rightarrow> (Inl e, this, m1)
                     | Inr value \<Rightarrow>
                         (Inr value,
                          (if useCache this
                           then this\<lparr>keyValueCache :=
                                  (keyValueCache this)(key \<mapsto> structuredClone value)\<rparr>
                           else this),
                          m1)))))"

text \<open>
  The expression \<open>this.useCache ? this.keysArrayCache : this.getKeysArray()\<close> that opens
  \<open>setItemSync\<close>, \<open>removeItemSync\<close>, \<open>clearSync\<close>, \<open>sizeSync\<close> and \<open>keySync\<close>,
  each of which goes on to use the result as an array of strings.
\<close>

definition keysArray_of :: "LocalStorageInterface \<Rightarrow> medium \<Rightarrow> string list result" where
  "keysArray_of this m =
     (case (if useCache this then (Inr (keysArrayCache this), this, m) else getKeysArray this m) of
        (Inl e, this1, m1) \<Rightarrow> (Inl e, this1, m1)
      | (Inr keysArray, this1, m1) \<Rightarrow>
          (case as_string_array keysArray of
             Inl e \<Rightarrow> (Inl e, this1, m1)
           | Inr keys \<Rightarrow> (Inr keys, this1, m1)))"

text \<open>
  With the cache on, \<open>keysArray\<close> is the array object \<open>this.keysArrayCache\<close> itself, so
  \<open>keysArray.push(key)\<close> changes the cached index before the medium is written; the later
  assignment \<open>this.keysArrayCache = keysArray\<close> stores the same array again.
\<close>

definition setItemSync ::
  "LocalStorageInterface \<Rightarrow> string \<Rightarrow> jsvalue \<Rightarrow> medium \<Rightarrow> unit result"
where
  "setItemSync this key value m =
     (if key = keysArrayName this then
        (Inl (Error (''storage-facade: '' @ interfaceName @ '':'' @
                     ''key '' @ [CHR 0x27] @ key @ [CHR 0x27] @ '' cannot be used.'')),
         this, m)
      else
        (case keysArray_of this m of
           (Inl e, this1, m1) \<Rightarrow> (Inl e, this1, m1)
         | (Inr keysArray, this1, m1) \<Rightarrow>
             (let wrappedValue = VObject [(''value'', value)] in
              case (if key \<notin> set keysArray then
                      (let pushed = keysArray @ [key];
                           this2 = (if useCache this1
                                    then this1\<lparr>keysArrayCache := of_string_array pushed\<rparr> else this1)
                       in case localStorage_setItem (keysArrayName this2)
                                 (stringify (of_string_array pushed)) m1 of
                            (Inl e, m2) \<Rightarrow> (Inl e, this2, m2)
                          | (Inr _, m2) \<Rightarrow>
                              (Inr (),
                               (if useCache this2
                                then this2\<lparr>keysArrayCache := of_string_array pushed\<rparr> else this2),
                               m2))
                    else (Inr (), this1, m1)) of
                (Inl e, this3, m3) \<Rightarrow> (Inl e, this3, m3)
              | (Inr _, this3, m3) \<Rightarrow>
                  (case localStorage_setItem (keyName this3 key)
                          (stringify wrappedValue) m3 of
                     (Inl e, m4) \<Rightarrow> (Inl e, this3, m4)
                   | (Inr _, m4) \<Rightarrow>
                       (Inr (),
                        (if useCache this3
                         then this3\<lparr>keyValueCache :=
                                (keyValueCache this3)(key \<mapsto> structuredClone value)\<rparr>
                         else this3),
                        m4)))))"

definition removeItemSync :: "LocalStorageInterface \<Rightarrow> string \<Rightarrow> medium \<Rightarrow> unit result" where
  "removeItemSync this key m =
     (case keysArray_of this m of
        (Inl e, this1, m1) \<Rightarrow> (Inl e, this1, m1)
      | (Inr keysArray, this1, m1) \<Rightarrow>
          (let updatedKeysArray = filter (\<lambda>savedKey. savedKey \<noteq> key) keysArray in
           case localStorage_setItem (keysArrayName this1)
                  (stringify (of_string_array updatedKeysArray)) m1 of
             (Inl e, m2) \<Rightarrow> (Inl e, this1, m2)
           | (Inr _, m2) \<Rightarrow>
               (case localStorage_removeItem (keyName this1 key) m2 of
                  (Inl e, m3) \<Rightarrow> (Inl e, this1, m3)
                | (Inr _, m3) \<Rightarrow>
                    (Inr (),
                     (if useCache this1
                      then this1\<lparr>keyValueCache := (keyValueCache this1)(key := None),
                                 keysArrayCache := of_string_array updatedKeysArray\<rparr>
                      else this1),
                     m3))))"

text \<open>The loop \<open>keysArray.forEach((key) => localStorage.removeItem(this.keyName(key)))\<close>.\<close>

fun removeItems ::
  "LocalStorageInterface \<Rightarrow> string list \<Rightarrow> medium \<Rightarrow> (error + unit) \<times> medium"
where
  "removeItems this [] m = (Inr (), m)"
| "removeItems this (key # keys) m =
     (case localStorage_removeItem (keyName this key) m of
        (Inl e, m1) \<Rightarrow> (Inl e, m1)
      | (Inr _, m1) \<Rightarrow> removeItems this keys m1)"

definition clearSync :: "LocalStorageInterface \<Rightarrow> medium \<Rightarrow> unit result" where
  "clearSync this m =
     (case keysArray_of this m of
        (Inl e, this1, m1) \<Rightarrow> (Inl e, this1, m1)
      | (Inr keysArray, this1, m1) \<Rightarrow>
          (case removeItems this1 keysArray m1 of
             (Inl e, m2) \<Rightarrow> (Inl e, this1, m2)
           | (Inr _, m2) \<Rightarrow>
               (case localStorage_setItem (keysArrayName this1)
                       (stringify (of_string_array [])) m2 of
                  (Inl e, m3) \<Rightarrow> (Inl e, this1, m3)
                | (Inr _, m3) \<Rightarrow>
                    (Inr (),
                     (if useCache this1
                      then this1\<lparr>keyValueCache := Map.empty, keysArrayCache := of_string_array []\<rparr>
                      else this1),
                     m3))))"

definition sizeSync :: "LocalStorageInterface \<Rightarrow> medium \<Rightarrow> nat result" where
  "sizeSync this m =
     (case keysArray_of this m of
        (Inl e, this1, m1) \<Rightarrow> (Inl e, this1, m1)
      | (Inr keysArray, this1, m1) \<Rightarrow> (Inr (length keysArray), this1, m1))"

text \<open>
  \<open>keysArray[index]\<close>: JavaScript gives \<open>undefined\<close> (here \<open>None\<close>) for an index that is
  not a position of the array, instead of raising.
\<close>

definition keySync :: "LocalStorageInterface \<Rightarrow> int \<Rightarrow> medium \<Rightarrow> string option result" where
  "keySync this index m =
     (case keysArray_of this m of
        (Inl e, this1, m1) \<Rightarrow> (Inl e, this1, m1)
      | (Inr keysArray, this1, m1) \<Rightarrow>
          (Inr (if 0 \<le> index \<and> index < int (length keysArray)
                then Some (keysArray ! nat index) else None),
           this1, m1))"

section \<open>Running the adapter\<close>

text \<open>
  The facade calls the methods one after another on the same instance; an exception ends
  the call that raised it, and the next call starts from the state the failed call left.
\<close>

datatype op =
    Get string
  | Set string jsvalue
  | Remove string
  | Clear
  | Size
  | KeyAt int

datatype reply =
    Value jsvalue
  | Done
  | Count nat
  | Key "string option"

definition returning :: "('a \<Rightarrow> reply) \<Rightarrow> 'a result \<Rightarrow> reply result" where
  "returning f r = (case r of (x, this, m) \<Rightarrow> (map_sum id f x, this, m))"

fun exec :: "op \<Rightarrow> LocalStorageInterface \<Rightarrow> medium \<Rightarrow> reply result" where
  "exec (Get key) this m = returning Value (getItemSync this key m)"
| "exec (Set key value) this m = returning (\<lambda>_. Done) (setItemSync this key value m)"
| "exec (Remove key) this m = returning (\<lambda>_. Done) (removeItemSync this key m)"
| "exec Clear this m = returning (\<lambda>_. Done) (clearSync this m)"
| "exec Size this m = returning Count (sizeSync this m)"
| "exec (KeyAt index) this m = returning Key (keySync this index m)"

fun run ::
  "op list \<Rightarrow> LocalStorageInterface \<Rightarrow> medium \<Rightarrow>
     (error + reply) list \<times> LocalStorageInterface \<times> medium"
where
  "run [] this m = ([], this, m)"
| "run (c # cs) this m =
     (case exec c this m of
        (r, this1, m1) \<Rightarrow> (case run cs this1 m1 of (rs, this2, m2) \<Rightarrow> (r # rs, this2, m2)))"

section \<open>The vocabulary of the specification\<close>

text \<open>The instance carries the names that \<open>initSync\<close> computes from the storage name.\<close>

definition named :: "LocalStorageInterface \<Rightarrow> bool" where
  "named this \<longleftrightarrow> keysArrayName this = ''__'' @ storageName this @ ''-keys-array''"

text \<open>The persisted key index: the parsed key-index record, and the same read as a list of keys.\<close>

definition persisted_index :: "LocalStorageInterface \<Rightarrow> medium \<Rightarrow> jsvalue option" where
  "persisted_index this m =
     (case items m (keysArrayName this) of
        None \<Rightarrow> None
      | Some t \<Rightarrow> (case JSON_parse t of Inl e \<Rightarrow> None | Inr v \<Rightarrow> Some v))"

definition persisted_keys :: "LocalStorageInterface \<Rightarrow> medium \<Rightarrow> string list option" where
  "persisted_keys this m =
     (case persisted_index this m of
        None \<Rightarrow> None
      | Some v \<Rightarrow> (case as_string_array v of Inl e \<Rightarrow> None | Inr ks \<Rightarrow> Some ks))"

text \<open>The decoded persisted Entry of a logical key.\<close>

definition persisted_value :: "LocalStorageInterface \<Rightarrow> medium \<Rightarrow> string \<Rightarrow> jsvalue option" where
  "persisted_value this m key =
     (case items m (keyName this key) of
        None \<Rightarrow> None
      | Some t \<Rightarrow>
          (case JSON_parse t of
             Inl e \<Rightarrow> None
           | Inr w \<Rightarrow> (case destructure_value w of Inl e \<Rightarrow> None | Inr v \<Rightarrow> Some v)))"

text \<open>
  What comes back when a value goes through \<open>JSON.stringify({ value })\<close>, \<open>JSON.parse\<close>
  and the destructuring.
\<close>

definition JSON_roundtrip :: "jsvalue \<Rightarrow> jsvalue" where
  "JSON_roundtrip v = (case JSON_stringify v of None \<Rightarrow> VUndefined | Some j \<Rightarrow> from_json j)"


text \<open>The mirror up to the JSON round trip of the cached values.\<close>

definition mirror_agrees :: "LocalStorageInterface \<Rightarrow> medium \<Rightarrow> bool" where
  "mirror_agrees this m \<longleftrightarrow>
     persisted_index this m = Some (keysArrayCache this) \<and>
     (\<forall>key value. keyValueCache this key = Some value \<longrightarrow>
        persisted_value this m key = Some (JSON_roundtrip value))"

text \<open>
  An initialized namespace, seen from one instance: the instance carries its names, the
  key-index record exists and holds an array of strings, and with caching the mirror agrees
  with the medium.
\<close>

definition initialized :: "LocalStorageInterface \<Rightarrow> medium \<Rightarrow> bool" where
  "initialized this m \<longleftrightarrow>
     named this \<and> persisted_keys this m \<noteq> None \<and> (useCache this \<longrightarrow> mirror_agrees this m)"

text \<open>
  The Key Index Manager of the specification: \<open>add\<close> is a no-op if the key is present and
  appends it otherwise, \<open>remove\<close> filters the key out, \<open>clear\<close> gives the empty sequence, and
  \<open>set\<close> rejects the index key \<open>reserved\<close>.
\<close>

fun spec_index :: "string \<Rightarrow> string list \<Rightarrow> op list \<Rightarrow> string list" where
  "spec_index reserved ks [] = ks"
| "spec_index reserved ks (Set key value # cs) =
     spec_index reserved (if key = reserved \<or> key \<in> set ks then ks else ks @ [key]) cs"
| "spec_index reserved ks (Remove key # cs) =
     spec_index reserved (filter (\<lambda>k. k \<noteq> key) ks) cs"
| "spec_index reserved ks (Clear # cs) = spec_index reserved [] cs"
| "spec_index reserved ks (_ # cs) = spec_index reserved ks cs"

text \<open>The value passed to the most recent \<open>set\<close> of a key in a sequence of operations.\<close>

fun last_set :: "string \<Rightarrow> op list \<Rightarrow> jsvalue option" where
  "last_set key [] = None"
| "last_set key (Set k v # cs) =
     (case last_set key cs of None \<Rightarrow> (if k = key then Some v else None) | Some v' \<Rightarrow> Some v')"
| "last_set key (_ # cs) = last_set key cs"

definition set_or_get :: "string \<Rightarrow> op \<Rightarrow> bool" where
  "set_or_get key c = (case c of Get k \<Rightarrow> k = key | Set k v \<Rightarrow> k = key | _ \<Rightarrow> False)"

definition completed :: "error + 'a \<Rightarrow> bool" where
  "completed r = (case r of Inl e \<Rightarrow> False | Inr x \<Rightarrow> True)"

text \<open>
  Two storage names whose physical keys cannot meet: neither name followed by \<open>-\<close> is a
  prefix of the other name followed by \<open>-\<close>, or of the other's index key.
\<close>

definition separated :: "string \<Rightarrow> string \<Rightarrow> bool" where
  "separated a b \<longleftrightarrow>
     a \<noteq> b \<and>
     \<not> prefix (a @ ''-'') (b @ ''-'') \<and> \<not> prefix (b @ ''-'') (a @ ''-'') \<and>
     \<not> prefix (a @ ''-'') (''__'' @ b @ ''-keys-array'') \<and>
     \<not> prefix (b @ ''-'') (''__'' @ a @ ''-keys-array'')"

text \<open>
  What the medium and the cache hold for one key after the last \<open>set\<close> of it: nothing if it
  was never set, else the Entry written by \<open>setItemSync\<close> and, with caching, the cached value.
\<close>

definition entry_holds ::
  "LocalStorageInterface \<Rightarrow> medium \<Rightarrow> string \<Rightarrow> jsvalue option \<Rightarrow> bool"
where
  "entry_holds this m key cur =
     (case cur of
        None \<Rightarrow>
          items m (keyName this key) = None \<and>
          (useCache this \<longrightarrow> keyValueCache this key = None)
      | Some v \<Rightarrow>
          items m (keyName this key) = Some (stringify (VObject [(''value'', v)])) \<and>
          (useCache this \<longrightarrow> keyValueCache this key = Some v))"

text \<open>
  Calls that throw, with caching. Nothing in the adapter undoes what a call did before it
  threw, and the cache is meant to change only after the medium has (\<open>// Update keysArray
  cache\<close>, \<open>// Update cache\<close> at the end of each method).

  \<open>entry_write_raised\<close>: a \<open>set\<close> whose write of the Entry raises. That write is the
  first call on the medium if the cached index holds the key, and else the second, after the
  write of the key-index record has succeeded.

  \<open>index_write_raised\<close>: a \<open>set\<close> of a key that the cached index does not hold, whose
  write of the key-index record raises. \<open>keysArray.push(key)\<close> has then already added the
  key to the array that \<open>this.keysArrayCache\<close> holds.
\<close>

definition entry_write_raised :: "string \<Rightarrow> LocalStorageInterface \<Rightarrow> medium \<Rightarrow> bool" where
  "entry_write_raised key this m =
     (case as_string_array (keysArrayCache this) of
        Inl e \<Rightarrow> False
      | Inr keysArray \<Rightarrow>
          if key \<in> set keysArray then outcome m 0 \<noteq> None
          else outcome m 0 = None \<and> outcome m 1 \<noteq> None)"

definition index_write_raised :: "string \<Rightarrow> LocalStorageInterface \<Rightarrow> medium \<Rightarrow> bool" where
  "index_write_raised key this m =
     (key \<noteq> keysArrayName this \<and>
      (case as_string_array (keysArrayCache this) of
         Inl e \<Rightarrow> False
       | Inr keysArray \<Rightarrow> key \<notin> set keysArray) \<and>
      outcome m 0 \<noteq> None)"

text \<open>
  A call started on instance \<open>this\<close> and medium \<open>m\<close> that gave \<open>r\<close> is \<open>settled\<close> when
  it completed, or threw in one of these ways: a \<open>get\<close>, however it threw; a \<open>set\<close>
  rejected for the index key, or whose write of the Entry raised; a \<open>remove\<close> or \<open>clear\<close>
  whose first call on the medium raised. A sequence of calls is settled when each call is,
  in the state in which it starts.
\<close>

definition settled :: "op \<Rightarrow> LocalStorageInterface \<Rightarrow> medium \<Rightarrow> error + reply \<Rightarrow> bool" where
  "settled c this m r =
     (completed r \<or>
      (case c of
         Get key \<Rightarrow> True
       | Set key value \<Rightarrow> key = keysArrayName this \<or> entry_write_raised key this m
       | Remove key \<Rightarrow> outcome m 0 \<noteq> None
       | Clear \<Rightarrow> outcome m 0 \<noteq> None
       | Size \<Rightarrow> False
       | KeyAt index \<Rightarrow> False))"



section \<open>Concrete scenarios\<close>

definition empty_medium :: medium where
  "empty_medium = \<lparr>items = Map.empty, faults = []\<rparr>"

text \<open>
  A new instance initialized on a medium: the instance and the medium after. \<open>opened\<close>
  starts from the empty medium.
\<close>

definition opened_on :: "Setup \<Rightarrow> medium \<Rightarrow> LocalStorageInterface \<times> medium" where
  "opened_on setup m = snd (initSync setup new_LocalStorageInterface m)"

definition opened :: "Setup \<Rightarrow> LocalStorageInterface \<times> medium" where
  "opened setup = opened_on setup empty_medium"

definition plain :: Setup where
  "plain = \<lparr>setup_name = Some ''s'', setup_useCache = None\<rparr>"

definition caching :: Setup where
  "caching = \<lparr>setup_name = Some ''s'', setup_useCache = Some True\<rparr>"

text \<open>The instance and the medium after a sequence of calls.\<close>

definition after ::
  "op list \<Rightarrow> LocalStorageInterface \<times> medium \<Rightarrow> LocalStorageInterface \<times> medium"
where
  "after cs s = snd (run cs (fst s) (snd s))"

text \<open>The same state, with the outcomes of the calls to come on the medium given.\<close>

definition scheduled ::
  "string option list \<Rightarrow> LocalStorageInterface \<times> medium \<Rightarrow> LocalStorageInterface \<times> medium"
where
  "scheduled fs s = (fst s, (snd s)\<lparr>faults := fs\<rparr>)"


text \<open>
  Named namespaces without caching: the setup, the instance that \<open>initSync\<close> makes of a
  new one, and the medium after two namespaces were initialized in turn on the empty medium.
\<close>

definition setup_named :: "string \<Rightarrow> Setup" where
  "setup_named n = \<lparr>setup_name = Some n, setup_useCache = None\<rparr>"

definition instance_named :: "string \<Rightarrow> LocalStorageInterface" where
  "instance_named n = fst (opened_on (setup_named n) empty_medium)"

definition two_namespaces :: "string \<Rightarrow> string \<Rightarrow> medium" where
  "two_namespaces na nb =
     snd (opened_on (setup_named nb) (snd (opened_on (setup_named na) empty_medium)))"

text \<open>A caching instance after two keys were set.\<close>

definition two_keys :: "LocalStorageInterface \<times> medium" where
  "two_keys = after [Set ''a'' (VNumber 1), Set ''b'' VNull] (opened caching)"

section \<open>Lemmas\<close>

lemma JSON_stringify_from_json: "JSON_stringify (from_json j) = Some j"
proof (induction j)
  case (JArray js)
  then have "map (\<lambda>x. case JSON_stringify (from_json x) of None \<Rightarrow> JNull | Some j \<Rightarrow> j) js = js"
    by (induction js) auto
  then show ?case by (simp add: o_def)
next
  case (JObject ps)
  then have "concat (map (\<lambda>x. case map_prod id JSON_stringify (map_prod id from_json x) of
                 (k, r) \<Rightarrow> (case r of None \<Rightarrow> [] | Some j \<Rightarrow> [(k, j)])) ps) = ps"
    by (induction ps) fastforce+
  then show ?case by (simp add: o_def)
qed simp_all

lemma JSON_roundtrip_from_json: "JSON_roundtrip (from_json j) = from_json j"
  by (simp add: JSON_roundtrip_def JSON_stringify_from_json)

lemma JSON_roundtrip_idem: "JSON_roundtrip (JSON_roundtrip v) = JSON_roundtrip v"
  by (simp add: JSON_roundtrip_def JSON_stringify_from_json split: option.splits)

lemma the_strings_map: "the_strings (map VString ks) = Some ks"
  by (induction ks) simp_all

lemma as_string_array_of: "as_string_array (of_string_array ks) = Inr ks"
  by (simp add: as_string_array_def of_string_array_def the_strings_map)

lemma JSON_stringify_keys: "JSON_stringify (of_string_array ks) = Some (JArray (map JString ks))"
  by (simp add: of_string_array_def o_def)

lemma parse_stringify_keys: "JSON_parse (stringify (of_string_array ks)) = Inr (of_string_array ks)"
  by (simp add: JSON_parse_def stringify_def JSON_stringify_keys of_string_array_def o_def)

lemma decode_wrapped:
  "JSON_parse (stringify (VObject [(''value'', v)])) = Inr w \<Longrightarrow> destructure_value w = Inr (JSON_roundtrip v)"
  by (auto simp: JSON_parse_def stringify_def destructure_value_def JSON_roundtrip_def split: option.splits)

lemma parse_wrapped:
  "\<exists>w. JSON_parse (stringify (VObject [(''value'', v)])) = Inr w \<and> destructure_value w = Inr (JSON_roundtrip v)"
  by (auto simp: JSON_parse_def stringify_def destructure_value_def JSON_roundtrip_def split: option.splits)

lemma map_of_from_json:
  "map_of (map (map_prod id from_json) ps) k = map_option from_json (map_of ps k)"
  by (induction ps) auto

lemma destructure_from_json_roundtrip:
  "destructure_value (from_json j) = Inr v \<Longrightarrow> JSON_roundtrip v = v"
  by (cases j)
     (auto simp: destructure_value_def JSON_roundtrip_def map_of_from_json JSON_stringify_from_json
           split: option.splits)

lemma underscores: "set u \<subseteq> {CHR ''_''} \<Longrightarrow> u \<noteq> [] \<Longrightarrow> s @ ''-'' @ k \<noteq> u @ s @ t"
proof (induction s arbitrary: u)
  case Nil
  then show ?case by (cases u) auto
next
  case (Cons c s)
  show ?case
  proof
    assume eq: "(c # s) @ ''-'' @ k = u @ (c # s) @ t"
    from Cons.prems obtain u' where u: "u = CHR ''_'' # u'" by (cases u) auto
    with eq have c: "c = CHR ''_''" and rest: "s @ ''-'' @ k = (u' @ [c]) @ s @ t" by auto
    have "set (u' @ [c]) \<subseteq> {CHR ''_''}" "u' @ [c] \<noteq> []" using Cons.prems u c by auto
    from Cons.IH[OF this] rest show False by blast
  qed
qed

lemma keyName_neq_keysArrayName: "named this \<Longrightarrow> keyName this key \<noteq> keysArrayName this"
  using underscores[of "''__''" "storageName this" key "''-keys-array''"]
  by (simp add: named_def keyName_def)

lemma getItem_ok: "faults m = [] \<Longrightarrow> localStorage_getItem k m = (Inr (items m k), m)"
  by (simp add: localStorage_getItem_def next_call_def)

lemma setItem_ok:
  "faults m = [] \<Longrightarrow> localStorage_setItem k t m = (Inr (), m\<lparr>items := (items m)(k \<mapsto> t)\<rparr>)"
  by (simp add: localStorage_setItem_def next_call_def)

lemma removeItem_ok:
  "faults m = [] \<Longrightarrow> localStorage_removeItem k m = (Inr (), m\<lparr>items := (items m)(k := None)\<rparr>)"
  by (simp add: localStorage_removeItem_def next_call_def)

lemma removeItems_ok:
  "faults m = [] \<Longrightarrow>
   removeItems this ks m = (Inr (), m\<lparr>items := items m |` (- keyName this ` set ks)\<rparr>)"
proof (induction ks arbitrary: m)
  case Nil
  then show ?case by simp
next
  case (Cons k ks)
  let ?m1 = "m\<lparr>items := (items m)(keyName this k := None)\<rparr>"
  have "removeItems this (k # ks) m = removeItems this ks ?m1"
    using Cons.prems by (simp add: removeItem_ok)
  also have "\<dots> = (Inr (), ?m1\<lparr>items := items ?m1 |` (- keyName this ` set ks)\<rparr>)"
    by (rule Cons.IH) (simp add: Cons.prems)
  also have "?m1\<lparr>items := items ?m1 |` (- keyName this ` set ks)\<rparr> =
             m\<lparr>items := items m |` (- keyName this ` set (k # ks))\<rparr>"
    by (simp add: fun_eq_iff restrict_map_def)
  finally show ?case .
qed

lemma the_stringsD: "the_strings vs = Some ks \<Longrightarrow> vs = map VString ks"
  by (induction vs arbitrary: ks rule: the_strings.induct) auto

lemma as_string_arrayD: "as_string_array w = Inr ks \<Longrightarrow> w = of_string_array ks"
  by (auto simp: as_string_array_def of_string_array_def the_stringsD
           split: jsvalue.splits option.splits)

lemma keyName_update [simp]:
  "keyName (keysArrayCache_update f this) = keyName this"
  "keyName (keyValueCache_update g this) = keyName this"
  by (simp_all add: keyName_def fun_eq_iff)

lemma keyName_inj [simp]: "keyName this k = keyName this k' \<longleftrightarrow> k = k'"
  by (simp add: keyName_def)

lemma persisted_keysD:
  "persisted_keys this m = Some ks \<Longrightarrow>
   \<exists>t v. items m (keysArrayName this) = Some t \<and> JSON_parse t = Inr v \<and> as_string_array v = Inr ks
        \<and> persisted_index this m = Some v"
  by (auto simp: persisted_keys_def persisted_index_def split: option.splits sum.splits)

lemma keysArray_of_ok:
  assumes "initialized this m" "faults m = []" "persisted_keys this m = Some ks"
  shows "keysArray_of this m = (Inr ks, this, m)"
proof -
  from persisted_keysD[OF assms(3)] obtain t v where
    t: "items m (keysArrayName this) = Some t" "JSON_parse t = Inr v" "as_string_array v = Inr ks"
       "persisted_index this m = Some v" by blast
  show ?thesis
  proof (cases "useCache this")
    case True
    with assms(1) t have "keysArrayCache this = v" by (simp add: initialized_def mirror_agrees_def)
    with True t show ?thesis by (simp add: keysArray_of_def)
  next
    case False
    with t assms(2) show ?thesis by (simp add: keysArray_of_def getKeysArray_def getItem_ok)
  qed
qed

lemma setItemSync_ok:
  assumes "initialized this m" "faults m = []" "persisted_keys this m = Some ks"
    "key \<noteq> keysArrayName this"
  shows "setItemSync this key v m =
     (Inr (),
      (if useCache this
       then this\<lparr>keysArrayCache := of_string_array (if key \<in> set ks then ks else ks @ [key]),
                 keyValueCache := (keyValueCache this)(key \<mapsto> v)\<rparr>
       else this),
      m\<lparr>items := (if key \<in> set ks then items m
                   else (items m)(keysArrayName this \<mapsto> stringify (of_string_array (ks @ [key]))))
                  (keyName this key \<mapsto> stringify (VObject [(''value'', v)]))\<rparr>)"
proof -
  from persisted_keysD[OF assms(3)] obtain t w where
    t: "items m (keysArrayName this) = Some t" "JSON_parse t = Inr w" "as_string_array w = Inr ks"
       "persisted_index this m = Some w" by blast
  have c: "useCache this \<Longrightarrow> keysArrayCache this = of_string_array ks"
    using assms(1) t as_string_arrayD by (auto simp add: initialized_def mirror_agrees_def)
  then have "useCache this \<Longrightarrow> this\<lparr>keysArrayCache := of_string_array ks\<rparr> = this"
    by simp
  then show ?thesis
    using assms(2,4)
    by (simp add: setItemSync_def keysArray_of_ok[OF assms(1-3)] setItem_ok structuredClone_def Let_def)
qed

lemma named_update [simp]:
  "named (keysArrayCache_update f this) = named this"
  "named (keyValueCache_update g this) = named this"
  by (simp_all add: named_def)

lemma persisted_index_update [simp]:
  "persisted_index (keysArrayCache_update f this) = persisted_index this"
  "persisted_index (keyValueCache_update g this) = persisted_index this"
  by (simp_all add: persisted_index_def fun_eq_iff)

lemma persisted_value_update [simp]:
  "persisted_value (keysArrayCache_update f this) = persisted_value this"
  "persisted_value (keyValueCache_update g this) = persisted_value this"
  by (simp_all add: persisted_value_def fun_eq_iff)

lemma persisted_keys_update [simp]:
  "persisted_keys (keysArrayCache_update f this) = persisted_keys this"
  "persisted_keys (keyValueCache_update g this) = persisted_keys this"
  by (simp_all add: persisted_keys_def fun_eq_iff)

lemma persisted_index_written:
  "items m (keysArrayName this) = Some (stringify (of_string_array ks)) \<Longrightarrow>
   persisted_index this m = Some (of_string_array ks)"
  by (simp add: persisted_index_def parse_stringify_keys)

lemma persisted_keys_written:
  "items m (keysArrayName this) = Some (stringify (of_string_array ks)) \<Longrightarrow>
   persisted_keys this m = Some ks"
  by (simp add: persisted_keys_def persisted_index_written as_string_array_of)

lemma persisted_value_written:
  "items m (keyName this key) = Some (stringify (VObject [(''value'', v)])) \<Longrightarrow>
   persisted_value this m key = Some (JSON_roundtrip v)"
  using parse_wrapped[of v] by (auto simp: persisted_value_def)

lemma persisted_index_frame:
  "items m' (keysArrayName this) = items m (keysArrayName this) \<Longrightarrow>
   persisted_index this m' = persisted_index this m"
  by (simp add: persisted_index_def)

lemma persisted_keys_frame:
  "items m' (keysArrayName this) = items m (keysArrayName this) \<Longrightarrow>
   persisted_keys this m' = persisted_keys this m"
  using persisted_index_frame[of m' this m] by (simp add: persisted_keys_def)

lemma persisted_value_frame:
  "items m' (keyName this key) = items m (keyName this key) \<Longrightarrow>
   persisted_value this m' key = persisted_value this m key"
  by (simp add: persisted_value_def)

lemma cached_index:
  "initialized this m \<Longrightarrow> useCache this \<Longrightarrow> persisted_keys this m = Some ks \<Longrightarrow>
   keysArrayCache this = of_string_array ks"
  by (auto simp: initialized_def mirror_agrees_def persisted_keys_def
           dest: as_string_arrayD split: option.splits sum.splits)

lemma set_initialized:
  assumes "initialized this m" "faults m = []" "persisted_keys this m = Some ks"
    "key \<noteq> keysArrayName this" "setItemSync this key v m = (r, this', m')"
  shows "initialized this' m'"
    and "persisted_keys this' m' = Some (if key \<in> set ks then ks else ks @ [key])"
    and "faults m' = []"
proof -
  have n: "named this" using assms(1) by (simp add: initialized_def)
  note kn = keyName_neq_keysArrayName[OF n, of key]
  from kn have kn': "keysArrayName this \<noteq> keyName this key" by simp
  have "(r, this', m') = (Inr (),
      (if useCache this
       then this\<lparr>keysArrayCache := of_string_array (if key \<in> set ks then ks else ks @ [key]),
                 keyValueCache := (keyValueCache this)(key \<mapsto> v)\<rparr>
       else this),
      m\<lparr>items := (if key \<in> set ks then items m
                   else (items m)(keysArrayName this \<mapsto> stringify (of_string_array (ks @ [key]))))
                  (keyName this key \<mapsto> stringify (VObject [(''value'', v)]))\<rparr>)"
    using assms(5)[symmetric] setItemSync_ok[OF assms(1-4), of v] by (rule trans)
  then have st: "this' = (if useCache this
       then this\<lparr>keysArrayCache := of_string_array (if key \<in> set ks then ks else ks @ [key]),
                 keyValueCache := (keyValueCache this)(key \<mapsto> v)\<rparr>
       else this)"
    "m' = m\<lparr>items := (if key \<in> set ks then items m
                   else (items m)(keysArrayName this \<mapsto> stringify (of_string_array (ks @ [key]))))
                  (keyName this key \<mapsto> stringify (VObject [(''value'', v)]))\<rparr>"
    by blast+
  show f: "faults m' = []" using st assms(2) by simp
  have idx: "items m' (keysArrayName this) =
     (if key \<in> set ks then items m (keysArrayName this)
      else Some (stringify (of_string_array (ks @ [key]))))"
    using st kn' by simp
  show pk: "persisted_keys this' m' = Some (if key \<in> set ks then ks else ks @ [key])"
  proof (cases "key \<in> set ks")
    case True
    then have "persisted_keys this m' = persisted_keys this m"
      using idx persisted_keys_frame[of m' this m] by simp
    with True assms(3) st show ?thesis by simp
  next
    case False
    then show ?thesis using idx st by (simp add: persisted_keys_written)
  qed
  show "initialized this' m'"
  proof (cases "useCache this")
    case False
    with st pk n show ?thesis by (simp add: initialized_def)
  next
    case True
    have pi: "persisted_index this m' = Some (of_string_array (if key \<in> set ks then ks else ks @ [key]))"
    proof (cases "key \<in> set ks")
      case True
      then have "persisted_index this m' = persisted_index this m"
        using idx persisted_index_frame[of m' this m] by simp
      moreover have "persisted_index this m = Some (keysArrayCache this)"
        using assms(1) \<open>useCache this\<close> unfolding initialized_def mirror_agrees_def by blast
      ultimately show ?thesis
        using True cached_index[OF assms(1) \<open>useCache this\<close> assms(3)] by simp
    next
      case False
      then show ?thesis using idx by (simp add: persisted_index_written)
    qed
    have pv: "persisted_value this m' k = Some (JSON_roundtrip x)"
      if "((keyValueCache this)(key \<mapsto> v)) k = Some x" for k x
    proof (cases "k = key")
      case True
      with that st show ?thesis by (simp add: persisted_value_written)
    next
      case False
      then have "items m' (keyName this k) = items m (keyName this k)"
        using st keyName_neq_keysArrayName[OF n, of k] by auto
      then have "persisted_value this m' k = persisted_value this m k"
        by (rule persisted_value_frame)
      moreover from False that have "keyValueCache this k = Some x" by simp
      with assms(1) True have "persisted_value this m k = Some (JSON_roundtrip x)"
        unfolding initialized_def mirror_agrees_def by blast
      ultimately show ?thesis by simp
    qed
    have "mirror_agrees this' m'"
      unfolding mirror_agrees_def using True st(1) pi pv by simp
    with pk n st(1) show ?thesis
      by (simp add: initialized_def)
  qed
qed

lemma getItemSync_absent:
  assumes "faults m = []" "items m (keyName this key) = None"
    "useCache this \<Longrightarrow> keyValueCache this key = None"
  shows "getItemSync this key m = (Inr VUndefined, this, m)"
  using assms by (simp add: getItemSync_def getItem_ok)

lemma getItemSync_cached:
  assumes "useCache this" "keyValueCache this key = Some v"
  shows "getItemSync this key m = (Inr v, this, m)"
  using assms by (simp add: getItemSync_def structuredClone_def)

lemma getItemSync_written:
  assumes "faults m = []" "\<not> useCache this"
    "items m (keyName this key) = Some (stringify (VObject [(''value'', v)]))"
  shows "getItemSync this key m = (Inr (JSON_roundtrip v), this, m)"
  using assms parse_wrapped[of v] by (auto simp: getItemSync_def getItem_ok)

lemma removeItemSync_ok:
  assumes "initialized this m" "faults m = []" "persisted_keys this m = Some ks"
  shows "removeItemSync this key m =
     (Inr (),
      (if useCache this
       then this\<lparr>keyValueCache := (keyValueCache this)(key := None),
                 keysArrayCache := of_string_array (filter (\<lambda>k. k \<noteq> key) ks)\<rparr>
       else this),
      m\<lparr>items := (items m)
           (keysArrayName this \<mapsto> stringify (of_string_array (filter (\<lambda>k. k \<noteq> key) ks)),
            keyName this key := None)\<rparr>)"
  using assms(2)
  by (simp add: removeItemSync_def keysArray_of_ok[OF assms] setItem_ok removeItem_ok Let_def)

lemma clearSync_ok:
  assumes "initialized this m" "faults m = []" "persisted_keys this m = Some ks"
  shows "clearSync this m =
     (Inr (),
      (if useCache this
       then this\<lparr>keyValueCache := Map.empty, keysArrayCache := of_string_array []\<rparr>
       else this),
      m\<lparr>items := (items m |` (- keyName this ` set ks))
           (keysArrayName this \<mapsto> stringify (of_string_array []))\<rparr>)"
  using assms(2)
  by (simp add: clearSync_def keysArray_of_ok[OF assms] setItem_ok removeItems_ok)

lemma sizeSync_ok:
  assumes "initialized this m" "faults m = []" "persisted_keys this m = Some ks"
  shows "sizeSync this m = (Inr (length ks), this, m)"
  by (simp add: sizeSync_def keysArray_of_ok[OF assms])

lemma keySync_ok:
  assumes "initialized this m" "faults m = []" "persisted_keys this m = Some ks"
  shows "keySync this i m =
    (Inr (if 0 \<le> i \<and> i < int (length ks) then Some (ks ! nat i) else None), this, m)"
  by (simp add: keySync_def keysArray_of_ok[OF assms])

lemma remove_initialized:
  assumes "initialized this m" "faults m = []" "persisted_keys this m = Some ks"
    "removeItemSync this key m = (r, this', m')"
  shows "initialized this' m'"
    and "persisted_keys this' m' = Some (filter (\<lambda>k. k \<noteq> key) ks)"
    and "faults m' = []"
proof -
  have n: "named this" using assms(1) by (simp add: initialized_def)
  have "(r, this', m') = (Inr (),
      (if useCache this
       then this\<lparr>keyValueCache := (keyValueCache this)(key := None),
                 keysArrayCache := of_string_array (filter (\<lambda>k. k \<noteq> key) ks)\<rparr>
       else this),
      m\<lparr>items := (items m)
           (keysArrayName this \<mapsto> stringify (of_string_array (filter (\<lambda>k. k \<noteq> key) ks)),
            keyName this key := None)\<rparr>)"
    using assms(4)[symmetric] removeItemSync_ok[OF assms(1-3)] by (rule trans)
  then have st: "this' = (if useCache this
       then this\<lparr>keyValueCache := (keyValueCache this)(key := None),
                 keysArrayCache := of_string_array (filter (\<lambda>k. k \<noteq> key) ks)\<rparr>
       else this)"
     "m' = m\<lparr>items := (items m)
           (keysArrayName this \<mapsto> stringify (of_string_array (filter (\<lambda>k. k \<noteq> key) ks)),
            keyName this key := None)\<rparr>"
    by blast+
  show "faults m' = []" using st assms(2) by simp
  have idx: "items m' (keysArrayName this) =
      Some (stringify (of_string_array (filter (\<lambda>k. k \<noteq> key) ks)))"
    using st keyName_neq_keysArrayName[OF n, of key] by auto
  show pk: "persisted_keys this' m' = Some (filter (\<lambda>k. k \<noteq> key) ks)"
    using persisted_keys_written[OF idx] st(1) by simp
  show "initialized this' m'"
  proof (cases "useCache this")
    case False
    with st pk n show ?thesis by (simp add: initialized_def)
  next
    case True
    have pv: "persisted_value this m' k = Some (JSON_roundtrip x)"
      if "((keyValueCache this)(key := None)) k = Some x" for k x
    proof -
      from that have ne: "k \<noteq> key" and c: "keyValueCache this k = Some x"
        by (auto split: if_splits)
      then have "items m' (keyName this k) = items m (keyName this k)"
        using st keyName_neq_keysArrayName[OF n, of k] by auto
      then have "persisted_value this m' k = persisted_value this m k"
        by (rule persisted_value_frame)
      moreover from c assms(1) True have "persisted_value this m k = Some (JSON_roundtrip x)"
        unfolding initialized_def mirror_agrees_def by blast
      ultimately show ?thesis by simp
    qed
    have "mirror_agrees this' m'"
      unfolding mirror_agrees_def using True st(1) persisted_index_written[OF idx] pv by simp
    with pk n st(1) show ?thesis by (simp add: initialized_def)
  qed
qed

lemma clear_initialized:
  assumes "initialized this m" "faults m = []" "persisted_keys this m = Some ks"
    "clearSync this m = (r, this', m')"
  shows "initialized this' m'"
    and "persisted_keys this' m' = Some []"
    and "faults m' = []"
proof -
  have n: "named this" using assms(1) by (simp add: initialized_def)
  have "(r, this', m') = (Inr (),
      (if useCache this
       then this\<lparr>keyValueCache := Map.empty, keysArrayCache := of_string_array []\<rparr>
       else this),
      m\<lparr>items := (items m |` (- keyName this ` set ks))
           (keysArrayName this \<mapsto> stringify (of_string_array []))\<rparr>)"
    using assms(4)[symmetric] clearSync_ok[OF assms(1-3)] by (rule trans)
  then have st: "this' = (if useCache this
       then this\<lparr>keyValueCache := Map.empty, keysArrayCache := of_string_array []\<rparr>
       else this)"
     "m' = m\<lparr>items := (items m |` (- keyName this ` set ks))
           (keysArrayName this \<mapsto> stringify (of_string_array []))\<rparr>"
    by blast+
  show "faults m' = []" using st assms(2) by simp
  have idx: "items m' (keysArrayName this) = Some (stringify (of_string_array []))"
    using st by simp
  show pk: "persisted_keys this' m' = Some []"
    using persisted_keys_written[OF idx] st(1) by simp
  have "useCache this \<Longrightarrow> mirror_agrees this' m'"
    unfolding mirror_agrees_def using st(1) persisted_index_written[OF idx] by simp
  with pk n st(1) show "initialized this' m'" by (simp add: initialized_def)
qed


lemma get_held:
  assumes "faults m = []" "entry_holds this m key cur"
  shows "getItemSync this key m =
    (Inr (case cur of None \<Rightarrow> VUndefined | Some v \<Rightarrow> if useCache this then v else JSON_roundtrip v),
     this, m)"
proof (cases cur)
  case None
  with assms show ?thesis by (simp add: entry_holds_def getItemSync_absent)
next
  case (Some v)
  with assms show ?thesis
    by (cases "useCache this") (simp_all add: entry_holds_def getItemSync_cached getItemSync_written)
qed

lemma set_holds:
  assumes "initialized this m" "faults m = []" "key \<noteq> keysArrayName this"
    "setItemSync this key v m = (r, this', m')"
  shows "r = Inr ()" "entry_holds this' m' key (Some v)" "useCache this' = useCache this"
    "keysArrayName this' = keysArrayName this" "keyName this' = keyName this"
proof -
  from assms(1) obtain ks where ks: "persisted_keys this m = Some ks"
    by (auto simp: initialized_def)
  have "(r, this', m') = (Inr (),
      (if useCache this
       then this\<lparr>keysArrayCache := of_string_array (if key \<in> set ks then ks else ks @ [key]),
                 keyValueCache := (keyValueCache this)(key \<mapsto> v)\<rparr>
       else this),
      m\<lparr>items := (if key \<in> set ks then items m
                   else (items m)(keysArrayName this \<mapsto> stringify (of_string_array (ks @ [key]))))
                  (keyName this key \<mapsto> stringify (VObject [(''value'', v)]))\<rparr>)"
    using assms(4)[symmetric] setItemSync_ok[OF assms(1,2) ks assms(3), of v] by (rule trans)
  then have st: "r = Inr ()" "this' = (if useCache this
       then this\<lparr>keysArrayCache := of_string_array (if key \<in> set ks then ks else ks @ [key]),
                 keyValueCache := (keyValueCache this)(key \<mapsto> v)\<rparr>
       else this)"
    "m' = m\<lparr>items := (if key \<in> set ks then items m
                   else (items m)(keysArrayName this \<mapsto> stringify (of_string_array (ks @ [key]))))
                  (keyName this key \<mapsto> stringify (VObject [(''value'', v)]))\<rparr>"
    by blast+
  show "r = Inr ()" by (rule st)
  show "entry_holds this' m' key (Some v)" using st(2,3) by (simp add: entry_holds_def)
  show "useCache this' = useCache this" "keysArrayName this' = keysArrayName this"
    "keyName this' = keyName this"
    using st(2) by (simp_all add: keyName_def fun_eq_iff)
qed

lemma run_set_get:
  assumes "initialized this m" "faults m = []" "key \<noteq> keysArrayName this"
    "entry_holds this m key cur" "\<forall>c\<in>set cs. set_or_get key c" "run cs this m = (rs, this', m')"
  shows "initialized this' m' \<and> faults m' = [] \<and> useCache this' = useCache this \<and>
         entry_holds this' m' key (case last_set key cs of None \<Rightarrow> cur | Some v \<Rightarrow> Some v) \<and>
         (\<forall>r\<in>set rs. completed r)"
  using assms
proof (induction cs arbitrary: this m cur rs)
  case Nil
  then show ?case by simp
next
  case (Cons c cs)
  obtain r this1 m1 where ex: "exec c this m = (r, this1, m1)" by (cases "exec c this m")
  obtain rs1 where run1: "run cs this1 m1 = (rs1, this', m')" and rs: "rs = r # rs1"
    using Cons.prems(6) ex by (auto split: prod.splits)
  from Cons.prems(5) have c: "set_or_get key c" and cs: "\<forall>c\<in>set cs. set_or_get key c" by simp_all
  show ?case
  proof (cases c)
    case (Get k)
    with c have k: "k = key" by (simp add: set_or_get_def)
    from ex Get k get_held[OF Cons.prems(2,4)]
    have st: "this1 = this" "m1 = m" "completed r"
      by (auto simp: returning_def completed_def)
    from Cons.IH[OF _ _ _ _ cs run1, of cur] Cons.prems st rs Get
    show ?thesis by simp
  next
    case (Set k v)
    with c have k: "k = key" by (simp add: set_or_get_def)
    obtain r0 where s: "setItemSync this key v m = (r0, this1, m1)" and r: "r = map_sum id (\<lambda>_. Done) r0"
      using ex Set k by (auto simp: returning_def split: prod.splits)
    from Cons.prems(1) obtain ks where ks: "persisted_keys this m = Some ks"
      by (auto simp: initialized_def)
    note i = set_initialized[OF Cons.prems(1,2) ks Cons.prems(3) s]
    note h = set_holds[OF Cons.prems(1,2,3) s]
    from h(4) Cons.prems(3) have ne: "key \<noteq> keysArrayName this1" by simp
    from Cons.IH[OF i(1) i(3) ne h(2) cs run1] h(1,3) r rs Set k
    show ?thesis by (auto simp: completed_def split: option.splits)
  qed (use c in \<open>simp_all add: set_or_get_def\<close>)
qed

lemma setItem_Inr:
  "localStorage_setItem k t m = (Inr u, m') \<Longrightarrow> items m' = (items m)(k \<mapsto> t)"
  by (auto simp: localStorage_setItem_def next_call_def split: list.splits option.splits)

lemma removeItem_Inr:
  "localStorage_removeItem k m = (Inr u, m') \<Longrightarrow> items m' = (items m)(k := None)"
  by (auto simp: localStorage_removeItem_def next_call_def split: list.splits option.splits)

lemma getItem_Inr:
  "localStorage_getItem k m = (Inr x, m') \<Longrightarrow> items m' = items m \<and> x = items m k"
  by (auto simp: localStorage_getItem_def next_call_def split: list.splits option.splits)

lemma removeItems_Inr:
  "removeItems this ks m = (Inr u, m') \<Longrightarrow> items m' = items m |` (- keyName this ` set ks)"
proof (induction ks arbitrary: m)
  case Nil
  then show ?case by simp
next
  case (Cons k ks)
  from Cons.prems obtain m1 where
    1: "localStorage_removeItem (keyName this k) m = (Inr (), m1)" and
    2: "removeItems this ks m1 = (Inr u, m')"
    by (auto split: prod.splits sum.splits)
  from Cons.IH[OF 2] removeItem_Inr[OF 1] show ?case
    by (simp add: fun_eq_iff restrict_map_def)
qed

lemma keysArray_of_cached:
  "useCache this \<Longrightarrow> keysArray_of this m = (Inr ks, this1, m1) \<Longrightarrow>
   this1 = this \<and> m1 = m \<and> keysArrayCache this = of_string_array ks"
  by (auto simp: keysArray_of_def dest: as_string_arrayD split: sum.splits)

lemma set_mirror:
  assumes "named this" "useCache this" "mirror_agrees this m"
    "setItemSync this key v m = (Inr u, this', m')"
  shows "mirror_agrees this' m'" "named this'" "useCache this'" "storageName this' = storageName this"
proof -
  from assms(4) have ne: "key \<noteq> keysArrayName this"
    by (auto simp: setItemSync_def)
  from assms(4) ne obtain ks this1 m1 where ka: "keysArray_of this m = (Inr ks, this1, m1)"
    by (auto simp: setItemSync_def split: prod.splits sum.splits)
  from keysArray_of_cached[OF assms(2) ka]
  have 1: "this1 = this" "m1 = m" and c: "keysArrayCache this = of_string_array ks" by simp_all
  let ?ks' = "if key \<in> set ks then ks else ks @ [key]"
  have "this' = this\<lparr>keysArrayCache := of_string_array ?ks',
                 keyValueCache := (keyValueCache this)(key \<mapsto> v)\<rparr> \<and>
    items m' = (if key \<in> set ks then items m
                   else (items m)(keysArrayName this \<mapsto> stringify (of_string_array (ks @ [key]))))
                  (keyName this key \<mapsto> stringify (VObject [(''value'', v)]))"
    using assms(4) ne assms(2) c
    by (auto simp: setItemSync_def ka 1 Let_def structuredClone_def
             dest!: setItem_Inr split: prod.splits sum.splits if_splits)
  then have st: "this' = this\<lparr>keysArrayCache := of_string_array ?ks',
                 keyValueCache := (keyValueCache this)(key \<mapsto> v)\<rparr>"
    and it: "items m' = (if key \<in> set ks then items m
                   else (items m)(keysArrayName this \<mapsto> stringify (of_string_array (ks @ [key]))))
                  (keyName this key \<mapsto> stringify (VObject [(''value'', v)]))"
    by blast+
  show "named this'" "useCache this'" "storageName this' = storageName this"
    using st assms(1,2) by simp_all
  note kn = keyName_neq_keysArrayName[OF assms(1)]
  have idx: "items m' (keysArrayName this) =
     (if key \<in> set ks then items m (keysArrayName this)
      else Some (stringify (of_string_array (ks @ [key]))))"
    using it kn[of key] by auto
  have pi: "persisted_index this m' = Some (of_string_array ?ks')"
  proof (cases "key \<in> set ks")
    case True
    then have "persisted_index this m' = persisted_index this m"
      using idx persisted_index_frame[of m' this m] by simp
    with True c assms(3) show ?thesis by (simp add: mirror_agrees_def)
  next
    case False
    then show ?thesis using idx by (simp add: persisted_index_written)
  qed
  have pv: "persisted_value this m' k = Some (JSON_roundtrip x)"
    if "((keyValueCache this)(key \<mapsto> v)) k = Some x" for k x
  proof (cases "k = key")
    case True
    with that it show ?thesis by (simp add: persisted_value_written)
  next
    case False
    then have "items m' (keyName this k) = items m (keyName this k)"
      using it kn[of k] by auto
    then have "persisted_value this m' k = persisted_value this m k"
      by (rule persisted_value_frame)
    moreover from False that have "keyValueCache this k = Some x" by simp
    with assms(3) have "persisted_value this m k = Some (JSON_roundtrip x)"
      unfolding mirror_agrees_def by blast
    ultimately show ?thesis by simp
  qed
  show "mirror_agrees this' m'"
    unfolding mirror_agrees_def using st pi pv by simp
qed

lemma remove_mirror:
  assumes "named this" "useCache this" "mirror_agrees this m"
    "removeItemSync this key m = (Inr u, this', m')"
  shows "mirror_agrees this' m'" "named this'" "useCache this'" "storageName this' = storageName this"
proof -
  from assms(4) obtain ks this1 m1 where ka: "keysArray_of this m = (Inr ks, this1, m1)"
    by (auto simp: removeItemSync_def split: prod.splits sum.splits)
  from keysArray_of_cached[OF assms(2) ka]
  have 1: "this1 = this" "m1 = m" and c: "keysArrayCache this = of_string_array ks" by simp_all
  let ?ks' = "filter (\<lambda>k. k \<noteq> key) ks"
  have "this' = this\<lparr>keyValueCache := (keyValueCache this)(key := None),
                      keysArrayCache := of_string_array ?ks'\<rparr> \<and>
    items m' = (items m)(keysArrayName this \<mapsto> stringify (of_string_array ?ks'),
                         keyName this key := None)"
    using assms(4) assms(2)
    by (auto simp: removeItemSync_def ka 1 Let_def
             dest!: setItem_Inr removeItem_Inr split: prod.splits sum.splits if_splits)
  then have st: "this' = this\<lparr>keyValueCache := (keyValueCache this)(key := None),
                      keysArrayCache := of_string_array ?ks'\<rparr>"
    and it: "items m' = (items m)(keysArrayName this \<mapsto> stringify (of_string_array ?ks'),
                         keyName this key := None)"
    by blast+
  show "named this'" "useCache this'" "storageName this' = storageName this"
    using st assms(1,2) by simp_all
  note kn = keyName_neq_keysArrayName[OF assms(1)]
  have idx: "items m' (keysArrayName this) = Some (stringify (of_string_array ?ks'))"
    using it kn[of key] by auto
  have pv: "persisted_value this m' k = Some (JSON_roundtrip x)"
    if "((keyValueCache this)(key := None)) k = Some x" for k x
  proof -
    from that have ne: "k \<noteq> key" and cx: "keyValueCache this k = Some x"
      by (auto split: if_splits)
    then have "items m' (keyName this k) = items m (keyName this k)"
      using it kn[of k] by auto
    then have "persisted_value this m' k = persisted_value this m k"
      by (rule persisted_value_frame)
    moreover from cx assms(3) have "persisted_value this m k = Some (JSON_roundtrip x)"
      unfolding mirror_agrees_def by blast
    ultimately show ?thesis by simp
  qed
  show "mirror_agrees this' m'"
    unfolding mirror_agrees_def using st persisted_index_written[OF idx] pv by simp
qed

lemma clear_mirror:
  assumes "named this" "useCache this" "mirror_agrees this m"
    "clearSync this m = (Inr u, this', m')"
  shows "mirror_agrees this' m'" "named this'" "useCache this'" "storageName this' = storageName this"
proof -
  from assms(4) obtain ks this1 m1 where ka: "keysArray_of this m = (Inr ks, this1, m1)"
    by (auto simp: clearSync_def split: prod.splits sum.splits)
  from keysArray_of_cached[OF assms(2) ka]
  have 1: "this1 = this" "m1 = m" by simp_all
  have "this' = this\<lparr>keyValueCache := Map.empty, keysArrayCache := of_string_array []\<rparr> \<and>
    items m' (keysArrayName this) = Some (stringify (of_string_array []))"
    using assms(4) assms(2)
    by (auto simp: clearSync_def ka 1
             dest!: setItem_Inr split: prod.splits sum.splits if_splits)
  then have st: "this' = this\<lparr>keyValueCache := Map.empty, keysArrayCache := of_string_array []\<rparr>"
    and idx: "items m' (keysArrayName this) = Some (stringify (of_string_array []))"
    by blast+
  show "named this'" "useCache this'" "storageName this' = storageName this"
    using st assms(1,2) by simp_all
  show "mirror_agrees this' m'"
    unfolding mirror_agrees_def using st persisted_index_written[OF idx] by simp
qed

lemma mirror_agrees_items:
  "items m' = items m \<Longrightarrow> mirror_agrees this m \<Longrightarrow> mirror_agrees this m'"
  by (simp add: mirror_agrees_def persisted_index_def persisted_value_def)

lemma get_mirror:
  assumes "named this" "useCache this" "mirror_agrees this m"
    "getItemSync this key m = (Inr x, this', m')"
  shows "mirror_agrees this' m'" "named this'" "useCache this'" "storageName this' = storageName this"
proof -
  have "(this' = this \<and> items m' = items m) \<or>
        (\<exists>j. items m (keyName this key) = Some (Json j) \<and>
              destructure_value (from_json j) = Inr x \<and>
              this' = this\<lparr>keyValueCache := (keyValueCache this)(key \<mapsto> x)\<rparr> \<and>
              items m' = items m)"
  proof (cases "keyValueCache this key")
    case (Some cached)
    with assms(2,4) show ?thesis by (simp add: getItemSync_def)
  next
    case None
    obtain r1 m1 where g: "localStorage_getItem (keyName this key) m = (r1, m1)"
      by (cases "localStorage_getItem (keyName this key) m")
    show ?thesis
    proof (cases r1)
      case (Inl e)
      with assms(2,4) None g show ?thesis by (simp add: getItemSync_def)
    next
      case (Inr found)
      from getItem_Inr[OF g[unfolded Inr]] have i: "items m1 = items m" "found = items m (keyName this key)"
        by simp_all
      show ?thesis
      proof (cases found)
        case None': None
        with assms(2,4) None g Inr i show ?thesis by (auto simp: getItemSync_def)
      next
        case (Some valueStr)
        show ?thesis
        proof (cases valueStr)
          case (NotJson s)
          with assms(2,4) None g Inr Some show ?thesis
            by (simp add: getItemSync_def JSON_parse_def)
        next
          case (Json j)
          with assms(2,4) None g Inr Some i show ?thesis
            by (cases "destructure_value (from_json j)")
               (auto simp: getItemSync_def JSON_parse_def structuredClone_def)
        qed
      qed
    qed
  qed
  then consider (hit) "this' = this" "items m' = items m"
    | (miss) j where "items m (keyName this key) = Some (Json j)" "destructure_value (from_json j) = Inr x"
        "this' = this\<lparr>keyValueCache := (keyValueCache this)(key \<mapsto> x)\<rparr>" "items m' = items m"
    by blast
  then have "mirror_agrees this' m' \<and> named this' \<and> useCache this' \<and> storageName this' = storageName this"
  proof cases
    case hit
    with assms(1-3) mirror_agrees_items[of m' m this] show ?thesis by simp
  next
    case miss
    have m: "mirror_agrees this m'" using miss(4) assms(3) by (rule mirror_agrees_items)
    have "persisted_value this m' key = Some x"
      using miss(1,2,4) by (simp add: persisted_value_def JSON_parse_def)
    moreover have "JSON_roundtrip x = x" using miss(2) by (rule destructure_from_json_roundtrip)
    ultimately have "mirror_agrees this' m'"
      using m miss(3) unfolding mirror_agrees_def by auto
    with miss(3) assms(1,2) show ?thesis by simp
  qed
  then show "mirror_agrees this' m'" "named this'" "useCache this'" "storageName this' = storageName this"
    by blast+
qed

lemma size_mirror:
  assumes "useCache this" "sizeSync this m = (Inr x, this', m')"
  shows "this' = this" "m' = m"
  using assms by (auto simp: sizeSync_def keysArray_of_def split: prod.splits sum.splits)

lemma key_mirror:
  assumes "useCache this" "keySync this i m = (Inr x, this', m')"
  shows "this' = this" "m' = m"
  using assms by (auto simp: keySync_def keysArray_of_def split: prod.splits sum.splits)

lemma returning_Inr:
  "returning f r = (Inr x, this', m') \<Longrightarrow> \<exists>y. r = (Inr y, this', m') \<and> x = f y"
  by (cases r; cases "fst r") (auto simp: returning_def)

lemma exec_mirror:
  assumes "named this" "useCache this" "mirror_agrees this m" "exec c this m = (Inr x, this', m')"
  shows "mirror_agrees this' m' \<and> named this' \<and> useCache this'"
proof (cases c)
  case (Get key)
  with assms(4) obtain y where "getItemSync this key m = (Inr y, this', m')"
    by (auto dest: returning_Inr)
  from get_mirror[OF assms(1-3) this] show ?thesis by simp
next
  case (Set key v)
  with assms(4) obtain y where "setItemSync this key v m = (Inr y, this', m')"
    by (auto dest: returning_Inr)
  from set_mirror[OF assms(1-3) this] show ?thesis by simp
next
  case (Remove key)
  with assms(4) obtain y where "removeItemSync this key m = (Inr y, this', m')"
    by (auto dest: returning_Inr)
  from remove_mirror[OF assms(1-3) this] show ?thesis by simp
next
  case Clear
  with assms(4) obtain y where "clearSync this m = (Inr y, this', m')"
    by (auto dest: returning_Inr)
  from clear_mirror[OF assms(1-3) this] show ?thesis by simp
next
  case Size
  with assms(4) obtain y where "sizeSync this m = (Inr y, this', m')"
    by (auto dest: returning_Inr)
  from size_mirror[OF assms(2) this] assms(1-3) show ?thesis by simp
next
  case (KeyAt i)
  with assms(4) obtain y where "keySync this i m = (Inr y, this', m')"
    by (auto dest: returning_Inr)
  from key_mirror[OF assms(2) this] assms(1-3) show ?thesis by simp
qed

lemma run_mirror:
  assumes "named this" "useCache this" "mirror_agrees this m" "run cs this m = (rs, this', m')"
    "\<forall>r\<in>set rs. completed r"
  shows "mirror_agrees this' m'"
  using assms
proof (induction cs arbitrary: this m rs)
  case Nil
  then show ?case by simp
next
  case (Cons c cs)
  obtain r this1 m1 where ex: "exec c this m = (r, this1, m1)" by (cases "exec c this m")
  obtain rs1 where run1: "run cs this1 m1 = (rs1, this', m')" and rs: "rs = r # rs1"
    using Cons.prems(4) ex by (auto split: prod.splits)
  from Cons.prems(5) rs obtain x where r: "r = Inr x" and all: "\<forall>r\<in>set rs1. completed r"
    by (cases r) (auto simp: completed_def)
  from exec_mirror[OF Cons.prems(1-3) ex[unfolded r]]
  have "mirror_agrees this1 m1" "named this1" "useCache this1" by simp_all
  from Cons.IH[OF this(2,3,1) run1 all] show ?case .
qed


subsection \<open>The concrete scenarios\<close>

lemma opened_plain:
  "opened plain =
     (\<lparr>storageName = ''s'', keysArrayName = ''__s-keys-array'', useCache = False,
       keysArrayCache = VArray [], keyValueCache = Map.empty\<rparr>,
      \<lparr>items = [''__s-keys-array'' \<mapsto> Json (JArray [])], faults = []\<rparr>)"
  by (simp add: opened_def opened_on_def plain_def initSync_def initSync_try_def new_LocalStorageInterface_def
        empty_medium_def getItem_ok setItem_ok defaultUseCache_def of_string_array_def stringify_def)

lemma opened_caching:
  "opened caching =
     (\<lparr>storageName = ''s'', keysArrayName = ''__s-keys-array'', useCache = True,
       keysArrayCache = VArray [], keyValueCache = Map.empty\<rparr>,
      \<lparr>items = [''__s-keys-array'' \<mapsto> Json (JArray [])], faults = []\<rparr>)"
  by (simp add: opened_def opened_on_def caching_def initSync_def initSync_try_def new_LocalStorageInterface_def
        empty_medium_def getItem_ok setItem_ok defaultUseCache_def of_string_array_def stringify_def)

lemma initialized_opened_plain: "initialized (fst (opened plain)) (snd (opened plain))"
  by (simp add: opened_plain initialized_def named_def persisted_keys_def persisted_index_def
        JSON_parse_def as_string_array_def)

lemma initialized_opened_caching: "initialized (fst (opened caching)) (snd (opened caching))"
  by (simp add: opened_caching initialized_def named_def persisted_keys_def persisted_index_def
        JSON_parse_def as_string_array_def mirror_agrees_def)

lemma run_after: "run cs (fst s) (snd s) = (fst (run cs (fst s) (snd s)), fst (after cs s), snd (after cs s))"
  by (simp add: after_def)

lemma initSync_try_fields:
  "initSync_try this m = (r, this', m') \<Longrightarrow>
   storageName this' = storageName this \<and> keysArrayName this' = keysArrayName this \<and>
   useCache this' = useCache this \<and> keyValueCache this' = keyValueCache this"
  by (auto simp: initSync_try_def split: prod.splits sum.splits option.splits if_splits)

lemma initSync_fields:
  assumes "initSync setup this m = (r, this', m')"
  shows "storageName this' = (case setup_name setup of None \<Rightarrow> defaultStorageName | Some n \<Rightarrow> n)"
    and "useCache this' = (case setup_useCache setup of None \<Rightarrow> defaultUseCache | Some b \<Rightarrow> b)"
    and "keysArrayName this' = ''__'' @ storageName this' @ ''-keys-array''"
    and "keyValueCache this' = keyValueCache this"
    and "named this'"
proof -
  let ?this3 = "this\<lparr>storageName := (case setup_name setup of None \<Rightarrow> defaultStorageName | Some n \<Rightarrow> n),
                      useCache := (case setup_useCache setup of None \<Rightarrow> defaultUseCache | Some b \<Rightarrow> b),
                      keysArrayName := ''__'' @ (case setup_name setup of None \<Rightarrow> defaultStorageName | Some n \<Rightarrow> n) @ ''-keys-array''\<rparr>"
  from assms obtain x where t: "initSync_try ?this3 m = (x, this', m')"
    by (auto simp: initSync_def Let_def split: prod.splits sum.splits)
  from initSync_try_fields[OF t]
  show "storageName this' = (case setup_name setup of None \<Rightarrow> defaultStorageName | Some n \<Rightarrow> n)"
    and "useCache this' = (case setup_useCache setup of None \<Rightarrow> defaultUseCache | Some b \<Rightarrow> b)"
    and "keysArrayName this' = ''__'' @ storageName this' @ ''-keys-array''"
    and "keyValueCache this' = keyValueCache this"
    by simp_all
  then show "named this'" by (simp add: named_def)
qed



lemma initSync_opened: "initSync setup new_LocalStorageInterface empty_medium = (None, fst (opened setup), snd (opened setup))"
  by (simp add: opened_def opened_on_def initSync_def initSync_try_def empty_medium_def getItem_ok setItem_ok Let_def)

subsection \<open>What an operation leaves unchanged in the medium\<close>

lemma getItem_items: "localStorage_getItem k m = (r, m') \<Longrightarrow> items m' = items m"
  by (auto simp: localStorage_getItem_def next_call_def split: list.splits option.splits)

lemma setItem_frame:
  "localStorage_setItem k t m = (r, m') \<Longrightarrow> p \<noteq> k \<Longrightarrow> items m' p = items m p"
  by (auto simp: localStorage_setItem_def next_call_def split: list.splits option.splits)

lemma removeItem_frame:
  "localStorage_removeItem k m = (r, m') \<Longrightarrow> p \<noteq> k \<Longrightarrow> items m' p = items m p"
  by (auto simp: localStorage_removeItem_def next_call_def split: list.splits option.splits)

lemma removeItems_frame:
  "removeItems this ks m = (r, m') \<Longrightarrow> \<forall>k. p \<noteq> keyName this k \<Longrightarrow> items m' p = items m p"
proof (induction ks arbitrary: m)
  case Nil
  then show ?case by simp
next
  case (Cons k ks)
  obtain r1 m1 where 1: "localStorage_removeItem (keyName this k) m = (r1, m1)"
    by (cases "localStorage_removeItem (keyName this k) m")
  from removeItem_frame[OF 1, of p] Cons.prems(2) have f: "items m1 p = items m p" by simp
  show ?case
  proof (cases r1)
    case (Inl e)
    with Cons.prems(1) 1 f show ?thesis by simp
  next
    case (Inr u)
    with Cons.prems(1) 1 have "removeItems this ks m1 = (r, m')" by simp
    from Cons.IH[OF this Cons.prems(2)] f show ?thesis by simp
  qed
qed

lemma getKeysArray_frame:
  "getKeysArray this m = (r, this1, m1) \<Longrightarrow>
   items m1 = items m \<and> storageName this1 = storageName this \<and> keysArrayName this1 = keysArrayName this"
  by (auto simp: getKeysArray_def dest: getItem_items split: prod.splits sum.splits option.splits if_splits)

lemma keysArray_of_frame:
  "keysArray_of this m = (r, this1, m1) \<Longrightarrow>
   items m1 = items m \<and> storageName this1 = storageName this \<and> keysArrayName this1 = keysArrayName this"
  by (auto simp: keysArray_of_def dest: getKeysArray_frame split: prod.splits sum.splits if_splits)

lemma keyName_storageName: "storageName this1 = storageName this \<Longrightarrow> keyName this1 = keyName this"
  by (simp add: keyName_def fun_eq_iff)

lemma getItemSync_frame:
  "getItemSync this key m = (r, this', m') \<Longrightarrow> items m' = items m"
  by (auto simp: getItemSync_def dest: getItem_items split: prod.splits sum.splits option.splits if_splits)

lemma sizeSync_frame: "sizeSync this m = (r, this', m') \<Longrightarrow> items m' = items m"
  by (auto simp: sizeSync_def dest: keysArray_of_frame split: prod.splits sum.splits)

lemma keySync_frame: "keySync this i m = (r, this', m') \<Longrightarrow> items m' = items m"
  by (auto simp: keySync_def dest: keysArray_of_frame split: prod.splits sum.splits)

lemma setItemSync_frame:
  assumes "setItemSync this key v m = (r, this', m')" "p \<noteq> keysArrayName this" "p \<noteq> keyName this key"
  shows "items m' p = items m p"
proof (cases "key = keysArrayName this")
  case True
  with assms(1) show ?thesis by (simp add: setItemSync_def)
next
  case False
  obtain r1 this1 m1 where ka: "keysArray_of this m = (r1, this1, m1)"
    by (cases "keysArray_of this m")
  note f1 = keysArray_of_frame[OF ka]
  show ?thesis
  proof (cases r1)
    case (Inl e)
    with assms(1) False ka f1 show ?thesis by (simp add: setItemSync_def)
  next
    case (Inr ks)
    obtain r2 m2 where s1: "localStorage_setItem (keysArrayName this) (stringify (of_string_array (ks @ [key]))) m1 = (r2, m2)"
      by (cases "localStorage_setItem (keysArrayName this) (stringify (of_string_array (ks @ [key]))) m1")
    from setItem_frame[OF s1 assms(2)] f1 have f2: "items m2 p = items m p" by simp
    obtain r3 m3 where s2: "localStorage_setItem (keyName this key) (stringify (VObject [(''value'', v)])) m2 = (r3, m3)"
      by (cases "localStorage_setItem (keyName this key) (stringify (VObject [(''value'', v)])) m2")
    from setItem_frame[OF s2 assms(3)] f2 have f3: "items m3 p = items m p" by simp
    obtain r4 m4 where s3: "localStorage_setItem (keyName this key) (stringify (VObject [(''value'', v)])) m1 = (r4, m4)"
      by (cases "localStorage_setItem (keyName this key) (stringify (VObject [(''value'', v)])) m1")
    from setItem_frame[OF s3 assms(3)] f1 have f4: "items m4 p = items m p" by simp
    from assms(1) False ka Inr f1 s1 s2 s3 f2 f3 f4 show ?thesis
      by (auto simp: setItemSync_def Let_def keyName_def split: sum.splits if_splits)
  qed
qed

lemma removeItemSync_frame:
  assumes "removeItemSync this key m = (r, this', m')" "p \<noteq> keysArrayName this" "p \<noteq> keyName this key"
  shows "items m' p = items m p"
proof -
  obtain r1 this1 m1 where ka: "keysArray_of this m = (r1, this1, m1)"
    by (cases "keysArray_of this m")
  note f1 = keysArray_of_frame[OF ka]
  show ?thesis
  proof (cases r1)
    case (Inl e)
    with assms(1) ka f1 show ?thesis by (simp add: removeItemSync_def)
  next
    case (Inr ks)
    obtain r2 m2 where s1: "localStorage_setItem (keysArrayName this)
        (stringify (of_string_array (filter (\<lambda>savedKey. savedKey \<noteq> key) ks))) m1 = (r2, m2)"
      by (cases "localStorage_setItem (keysArrayName this)
        (stringify (of_string_array (filter (\<lambda>savedKey. savedKey \<noteq> key) ks))) m1")
    from setItem_frame[OF s1 assms(2)] f1 have f2: "items m2 p = items m p" by simp
    obtain r3 m3 where s2: "localStorage_removeItem (keyName this key) m2 = (r3, m3)"
      by (cases "localStorage_removeItem (keyName this key) m2")
    from removeItem_frame[OF s2 assms(3)] f2 have f3: "items m3 p = items m p" by simp
    from assms(1) ka Inr f1 s1 s2 f2 f3 show ?thesis
      by (auto simp: removeItemSync_def Let_def keyName_def split: sum.splits if_splits)
  qed
qed

lemma clearSync_frame:
  assumes "clearSync this m = (r, this', m')" "p \<noteq> keysArrayName this" "\<forall>k. p \<noteq> keyName this k"
  shows "items m' p = items m p"
proof -
  obtain r1 this1 m1 where ka: "keysArray_of this m = (r1, this1, m1)"
    by (cases "keysArray_of this m")
  note f1 = keysArray_of_frame[OF ka]
  then have kn: "keyName this1 = keyName this" by (intro keyName_storageName) simp
  show ?thesis
  proof (cases r1)
    case (Inl e)
    with assms(1) ka f1 show ?thesis by (simp add: clearSync_def)
  next
    case (Inr ks)
    obtain r2 m2 where s1: "removeItems this1 ks m1 = (r2, m2)"
      by (cases "removeItems this1 ks m1")
    from removeItems_frame[OF s1, of p] assms(3) kn f1 have f2: "items m2 p = items m p" by simp
    obtain r3 m3 where s2: "localStorage_setItem (keysArrayName this) (stringify (of_string_array [])) m2 = (r3, m3)"
      by (cases "localStorage_setItem (keysArrayName this) (stringify (of_string_array [])) m2")
    from setItem_frame[OF s2 assms(2)] f2 have f3: "items m3 p = items m p" by simp
    from assms(1) ka Inr f1 s1 s2 f2 f3 show ?thesis
      by (auto simp: clearSync_def split: sum.splits if_splits)
  qed
qed

lemma returning_cases:
  "returning f x = (r, this', m') \<Longrightarrow> \<exists>r0. x = (r0, this', m')"
  by (cases x) (simp add: returning_def)

lemma exec_frame:
  assumes "exec c this m = (r, this', m')" "p \<noteq> keysArrayName this" "\<forall>k. p \<noteq> keyName this k"
  shows "items m' p = items m p"
proof (cases c)
  case (Get key)
  with assms(1) obtain r0 where "getItemSync this key m = (r0, this', m')"
    by (auto dest: returning_cases)
  from getItemSync_frame[OF this] show ?thesis by simp
next
  case (Set key v)
  with assms(1) obtain r0 where "setItemSync this key v m = (r0, this', m')"
    by (auto dest: returning_cases)
  from setItemSync_frame[OF this assms(2)] assms(3) show ?thesis by simp
next
  case (Remove key)
  with assms(1) obtain r0 where "removeItemSync this key m = (r0, this', m')"
    by (auto dest: returning_cases)
  from removeItemSync_frame[OF this assms(2)] assms(3) show ?thesis by simp
next
  case Clear
  with assms(1) obtain r0 where "clearSync this m = (r0, this', m')"
    by (auto dest: returning_cases)
  from clearSync_frame[OF this assms(2,3)] show ?thesis .
next
  case Size
  with assms(1) obtain r0 where "sizeSync this m = (r0, this', m')"
    by (auto dest: returning_cases)
  from sizeSync_frame[OF this] show ?thesis by simp
next
  case (KeyAt i)
  with assms(1) obtain r0 where "keySync this i m = (r0, this', m')"
    by (auto dest: returning_cases)
  from keySync_frame[OF this] show ?thesis by simp
qed

lemma initSync_try_frame:
  assumes "initSync_try this m = (r, this', m')" "p \<noteq> keysArrayName this"
  shows "items m' p = items m p"
proof -
  obtain r1 m1 where g: "localStorage_getItem (keysArrayName this) m = (r1, m1)"
    by (cases "localStorage_getItem (keysArrayName this) m")
  note f1 = getItem_items[OF g]
  obtain r2 m2 where s: "localStorage_setItem (keysArrayName this) (stringify (of_string_array [])) m1 = (r2, m2)"
    by (cases "localStorage_setItem (keysArrayName this) (stringify (of_string_array [])) m1")
  from setItem_frame[OF s assms(2)] f1 have f2: "items m2 p = items m p" by simp
  from assms(1) g s f1 f2 show ?thesis
    by (auto simp: initSync_try_def split: sum.splits option.splits if_splits)
qed

lemma initSync_frame:
  assumes "initSync setup this m = (r, this', m')" "p \<noteq> keysArrayName this'"
  shows "items m' p = items m p"
proof -
  let ?this3 = "this\<lparr>storageName := (case setup_name setup of None \<Rightarrow> defaultStorageName | Some n \<Rightarrow> n),
                      useCache := (case setup_useCache setup of None \<Rightarrow> defaultUseCache | Some b \<Rightarrow> b),
                      keysArrayName := ''__'' @ (case setup_name setup of None \<Rightarrow> defaultStorageName | Some n \<Rightarrow> n) @ ''-keys-array''\<rparr>"
  from assms(1) obtain x where t: "initSync_try ?this3 m = (x, this', m')"
    by (auto simp: initSync_def Let_def split: prod.splits sum.splits)
  from initSync_try_fields[OF t] assms(2) have "p \<noteq> keysArrayName ?this3" by simp
  from initSync_try_frame[OF t this] show ?thesis .
qed

lemma append_eq_prefix: "x @ k' = y @ k \<Longrightarrow> prefix x y \<or> prefix y x"
  by (auto simp: append_eq_append_conv2 prefix_def)

lemma separated_keys:
  assumes "named a" "named b" "separated (storageName a) (storageName b)"
  shows "keysArrayName b \<noteq> keysArrayName a"
    and "keysArrayName b \<noteq> keyName a k"
    and "keyName b k' \<noteq> keysArrayName a"
    and "keyName b k' \<noteq> keyName a k"
proof -
  from assms show "keysArrayName b \<noteq> keysArrayName a"
    by (simp add: named_def separated_def)
  show "keysArrayName b \<noteq> keyName a k"
  proof
    assume "keysArrayName b = keyName a k"
    with assms(2) have "''__'' @ storageName b @ ''-keys-array'' = (storageName a @ ''-'') @ k"
      by (simp add: named_def keyName_def)
    then have "prefix (storageName a @ ''-'') (''__'' @ storageName b @ ''-keys-array'')"
      unfolding prefix_def by (rule exI)
    with assms(3) show False by (simp add: separated_def)
  qed
  show "keyName b k' \<noteq> keysArrayName a"
  proof
    assume "keyName b k' = keysArrayName a"
    with assms(1) have "''__'' @ storageName a @ ''-keys-array'' = (storageName b @ ''-'') @ k'"
      by (simp add: named_def keyName_def)
    then have "prefix (storageName b @ ''-'') (''__'' @ storageName a @ ''-keys-array'')"
      unfolding prefix_def by (rule exI)
    with assms(3) show False by (simp add: separated_def)
  qed
  from assms(3) have n: "\<not> prefix (storageName a @ ''-'') (storageName b @ ''-'')"
    "\<not> prefix (storageName b @ ''-'') (storageName a @ ''-'')"
    by (simp_all add: separated_def)
  show "keyName b k' \<noteq> keyName a k"
  proof
    assume "keyName b k' = keyName a k"
    then have "(storageName b @ ''-'') @ k' = (storageName a @ ''-'') @ k"
      by (simp add: keyName_def)
    from append_eq_prefix[OF this] n show False by blast
  qed
qed

lemma sizeSync_items:
  assumes "items m' (keysArrayName this) = items m (keysArrayName this)" "faults m' = faults m"
  shows "fst (sizeSync this m') = fst (sizeSync this m)"
proof (cases "useCache this")
  case True
  then show ?thesis
    by (simp add: sizeSync_def keysArray_of_def split: sum.splits)
next
  case False
  have "fst (getKeysArray this m') = fst (getKeysArray this m)"
    using assms False
    by (cases "faults m")
       (auto simp: getKeysArray_def localStorage_getItem_def next_call_def
             split: option.splits sum.splits)
  then have "fst (keysArray_of this m') = fst (keysArray_of this m)"
    using False
    by (cases "getKeysArray this m'"; cases "getKeysArray this m")
       (auto simp: keysArray_of_def split: sum.splits)
  then show ?thesis
    by (cases "keysArray_of this m'"; cases "keysArray_of this m")
       (auto simp: sizeSync_def split: sum.splits)
qed

lemma instance_named: "instance_named n = \<lparr>storageName = n, keysArrayName = ''__'' @ n @ ''-keys-array'', useCache = False,
       keysArrayCache = VArray [], keyValueCache = Map.empty\<rparr>"
  by (simp add: instance_named_def opened_on_def setup_named_def initSync_def initSync_try_def new_LocalStorageInterface_def
        empty_medium_def getItem_ok setItem_ok defaultUseCache_def of_string_array_def stringify_def)


subsection \<open>Runs and initialization\<close>

lemma get_initialized:
  assumes "initialized this m" "faults m = []" "getItemSync this key m = (r, this', m')"
  shows "initialized this' m'" "m' = m" "keysArrayName this' = keysArrayName this"
    "persisted_keys this' m' = persisted_keys this m"
proof -
  have n: "named this" using assms(1) by (simp add: initialized_def)
  have g: "localStorage_getItem (keyName this key) m = (Inr (items m (keyName this key)), m)"
    using assms(2) by (rule getItem_ok)
  have "m' = m \<and> (this' = this \<or>
        (useCache this \<and> (\<exists>j x. items m (keyName this key) = Some (Json j) \<and>
              destructure_value (from_json j) = Inr x \<and>
              this' = this\<lparr>keyValueCache := (keyValueCache this)(key \<mapsto> x)\<rparr>)))"
  proof (cases "if useCache this then keyValueCache this key else None")
    case (Some cached)
    with assms(3) show ?thesis by (simp add: getItemSync_def)
  next
    case None
    show ?thesis
    proof (cases "items m (keyName this key)")
      case None': None
      with assms(3) None g show ?thesis by (simp add: getItemSync_def)
    next
      case (Some valueStr)
      show ?thesis
      proof (cases valueStr)
        case (NotJson s)
        with assms(3) None g Some show ?thesis by (simp add: getItemSync_def JSON_parse_def)
      next
        case (Json j)
        show ?thesis
        proof (cases "destructure_value (from_json j)")
          case (Inl e)
          with assms(3) None g Some Json show ?thesis
            by (simp add: getItemSync_def JSON_parse_def)
        next
          case (Inr x)
          with assms(3) None g Some Json
          have "m' = m" "\<not> useCache this \<Longrightarrow> this' = this"
            "useCache this \<Longrightarrow> this' = this\<lparr>keyValueCache := (keyValueCache this)(key \<mapsto> x)\<rparr>"
            by (simp_all add: getItemSync_def JSON_parse_def structuredClone_def)
          moreover have "items m (keyName this key) = Some (Json j)" using Some Json by simp
          ultimately show ?thesis using Inr by blast
        qed
      qed
    qed
  qed
  then have m: "m' = m" and c: "this' = this \<or>
        (useCache this \<and> (\<exists>j x. items m (keyName this key) = Some (Json j) \<and>
              destructure_value (from_json j) = Inr x \<and>
              this' = this\<lparr>keyValueCache := (keyValueCache this)(key \<mapsto> x)\<rparr>))"
    by blast+
  show "m' = m" by (rule m)
  from c show k: "keysArrayName this' = keysArrayName this" by auto
  from c m show pk: "persisted_keys this' m' = persisted_keys this m" by auto
  from c show "initialized this' m'"
  proof
    assume "this' = this"
    with m assms(1) show ?thesis by simp
  next
    assume "useCache this \<and> (\<exists>j x. items m (keyName this key) = Some (Json j) \<and>
              destructure_value (from_json j) = Inr x \<and>
              this' = this\<lparr>keyValueCache := (keyValueCache this)(key \<mapsto> x)\<rparr>)"
    then obtain j x where u: "useCache this" and j: "items m (keyName this key) = Some (Json j)"
      and d: "destructure_value (from_json j) = Inr x"
      and t: "this' = this\<lparr>keyValueCache := (keyValueCache this)(key \<mapsto> x)\<rparr>"
      by blast
    have "persisted_value this m key = Some x"
      using j d by (simp add: persisted_value_def JSON_parse_def)
    moreover have "JSON_roundtrip x = x" using d by (rule destructure_from_json_roundtrip)
    moreover have "mirror_agrees this m" using assms(1) u by (simp add: initialized_def)
    ultimately have "mirror_agrees this' m" using t unfolding mirror_agrees_def by auto
    with assms(1) t m show ?thesis by (simp add: initialized_def)
  qed
qed

lemma exec_index:
  assumes "initialized this m" "faults m = []" "persisted_keys this m = Some ks"
    "exec c this m = (r, this', m')"
  shows "initialized this' m' \<and> faults m' = [] \<and> keysArrayName this' = keysArrayName this \<and>
         persisted_keys this' m' = Some (spec_index (keysArrayName this) ks [c])"
proof (cases c)
  case (Get key)
  with assms(4) obtain r0 where "getItemSync this key m = (r0, this', m')"
    by (auto dest: returning_cases)
  from get_initialized[OF assms(1,2) this] assms(2,3) Get show ?thesis by simp
next
  case (Set key v)
  with assms(4) obtain r0 where s: "setItemSync this key v m = (r0, this', m')"
    by (auto dest: returning_cases)
  show ?thesis
  proof (cases "key = keysArrayName this")
    case True
    with s have "this' = this" "m' = m" by (simp_all add: setItemSync_def)
    with assms(1-3) Set True show ?thesis by simp
  next
    case False
    from set_initialized[OF assms(1-3) False s] set_holds(4)[OF assms(1,2) False s] Set False
    show ?thesis by simp
  qed
next
  case (Remove key)
  with assms(4) obtain r0 where s: "removeItemSync this key m = (r0, this', m')"
    by (auto dest: returning_cases)
  from s removeItemSync_ok[OF assms(1-3), of key] have "keysArrayName this' = keysArrayName this"
    by auto
  with remove_initialized[OF assms(1-3) s] Remove show ?thesis by simp
next
  case Clear
  with assms(4) obtain r0 where s: "clearSync this m = (r0, this', m')"
    by (auto dest: returning_cases)
  from s clearSync_ok[OF assms(1-3)] have "keysArrayName this' = keysArrayName this"
    by auto
  with clear_initialized[OF assms(1-3) s] Clear show ?thesis by simp
next
  case Size
  with assms(4) sizeSync_ok[OF assms(1-3)] have "this' = this" "m' = m"
    by (auto simp: returning_def)
  with assms(1-3) Size show ?thesis by simp
next
  case (KeyAt i)
  with assms(4) keySync_ok[OF assms(1-3), of i] have "this' = this" "m' = m"
    by (auto simp: returning_def)
  with assms(1-3) KeyAt show ?thesis by simp
qed

lemma spec_index_step: "spec_index reserved ks (c # cs) = spec_index reserved (spec_index reserved ks [c]) cs"
  by (cases c) simp_all

lemma run_index:
  assumes "initialized this m" "faults m = []" "persisted_keys this m = Some ks"
    "run cs this m = (rs, this', m')"
  shows "initialized this' m' \<and> faults m' = [] \<and> keysArrayName this' = keysArrayName this \<and>
         persisted_keys this' m' = Some (spec_index (keysArrayName this) ks cs)"
  using assms
proof (induction cs arbitrary: this m ks rs)
  case Nil
  then show ?case by simp
next
  case (Cons c cs)
  obtain r this1 m1 where ex: "exec c this m = (r, this1, m1)" by (cases "exec c this m")
  obtain rs1 where run1: "run cs this1 m1 = (rs1, this', m')"
    using Cons.prems(4) ex by (auto split: prod.splits)
  from exec_index[OF Cons.prems(1-3) ex]
  have 1: "initialized this1 m1" "faults m1 = []" "keysArrayName this1 = keysArrayName this"
    "persisted_keys this1 m1 = Some (spec_index (keysArrayName this) ks [c])"
    by simp_all
  from Cons.IH[OF 1(1,2,4) run1] 1(3) spec_index_step[of "keysArrayName this" ks c cs]
  show ?case by simp
qed

lemma after_index:
  assumes "initialized (fst s) (snd s)" "faults (snd s) = []" "persisted_keys (fst s) (snd s) = Some ks"
  shows "initialized (fst (after cs s)) (snd (after cs s))"
    and "faults (snd (after cs s)) = []"
    and "persisted_keys (fst (after cs s)) (snd (after cs s)) = Some (spec_index (keysArrayName (fst s)) ks cs)"
    and "keysArrayName (fst (after cs s)) = keysArrayName (fst s)"
  using run_index[OF assms run_after] by simp_all

lemma opened_caching_keys: "persisted_keys (fst (opened caching)) (snd (opened caching)) = Some []"
  by (simp add: opened_caching persisted_keys_def persisted_index_def JSON_parse_def as_string_array_def)

lemma opened_plain_keys: "persisted_keys (fst (opened plain)) (snd (opened plain)) = Some []"
  by (simp add: opened_plain persisted_keys_def persisted_index_def JSON_parse_def as_string_array_def)

lemma two_keys:
  "initialized (fst two_keys) (snd two_keys)" "faults (snd two_keys) = []"
  "persisted_keys (fst two_keys) (snd two_keys) = Some [''a'', ''b'']"
  "keysArrayName (fst two_keys) = ''__s-keys-array''"
proof -
  have f: "faults (snd (opened caching)) = []" by (simp add: opened_caching)
  note a = after_index[OF initialized_opened_caching f opened_caching_keys,
      of "[Set ''a'' (VNumber 1), Set ''b'' VNull]"]
  show "initialized (fst two_keys) (snd two_keys)" "faults (snd two_keys) = []"
    using a(1,2) by (simp_all add: two_keys_def)
  show "persisted_keys (fst two_keys) (snd two_keys) = Some [''a'', ''b'']"
    "keysArrayName (fst two_keys) = ''__s-keys-array''"
    using a(3,4) by (simp_all add: two_keys_def opened_caching)
qed

subsection \<open>Keys that were set\<close>

lemma getItemSync_storageName:
  "getItemSync this key m = (r, this', m') \<Longrightarrow> storageName this' = storageName this"
  by (auto simp: getItemSync_def split: prod.splits sum.splits option.splits if_splits)

lemma setItemSync_storageName:
  assumes "setItemSync this key v m = (r, this', m')"
  shows "storageName this' = storageName this"
proof (cases "key = keysArrayName this")
  case True
  with assms show ?thesis by (simp add: setItemSync_def)
next
  case False
  obtain r1 this1 m1 where ka: "keysArray_of this m = (r1, this1, m1)"
    by (cases "keysArray_of this m")
  note f1 = keysArray_of_frame[OF ka]
  from assms False ka f1 show ?thesis
    by (cases r1) (auto simp: setItemSync_def Let_def split: prod.splits sum.splits if_splits)
qed

lemma removeItemSync_storageName:
  assumes "removeItemSync this key m = (r, this', m')"
  shows "storageName this' = storageName this"
proof -
  obtain r1 this1 m1 where ka: "keysArray_of this m = (r1, this1, m1)"
    by (cases "keysArray_of this m")
  note f1 = keysArray_of_frame[OF ka]
  from assms ka f1 show ?thesis
    by (cases r1) (auto simp: removeItemSync_def Let_def split: prod.splits sum.splits if_splits)
qed

lemma clearSync_storageName:
  assumes "clearSync this m = (r, this', m')"
  shows "storageName this' = storageName this"
proof -
  obtain r1 this1 m1 where ka: "keysArray_of this m = (r1, this1, m1)"
    by (cases "keysArray_of this m")
  note f1 = keysArray_of_frame[OF ka]
  from assms ka f1 show ?thesis
    by (cases r1) (auto simp: clearSync_def split: prod.splits sum.splits if_splits)
qed

lemma sizeSync_storageName:
  "sizeSync this m = (r, this', m') \<Longrightarrow> storageName this' = storageName this"
  by (auto simp: sizeSync_def dest: keysArray_of_frame split: prod.splits sum.splits)

lemma keySync_storageName:
  "keySync this i m = (r, this', m') \<Longrightarrow> storageName this' = storageName this"
  by (auto simp: keySync_def dest: keysArray_of_frame split: prod.splits sum.splits)

lemma exec_storageName:
  assumes "exec c this m = (r, this', m')"
  shows "storageName this' = storageName this"
proof (cases c)
  case (Get key)
  with assms obtain r0 where "getItemSync this key m = (r0, this', m')"
    by (auto dest: returning_cases)
  then show ?thesis by (rule getItemSync_storageName)
next
  case (Set key v)
  with assms obtain r0 where "setItemSync this key v m = (r0, this', m')"
    by (auto dest: returning_cases)
  then show ?thesis by (rule setItemSync_storageName)
next
  case (Remove key)
  with assms obtain r0 where "removeItemSync this key m = (r0, this', m')"
    by (auto dest: returning_cases)
  then show ?thesis by (rule removeItemSync_storageName)
next
  case Clear
  with assms obtain r0 where "clearSync this m = (r0, this', m')"
    by (auto dest: returning_cases)
  then show ?thesis by (rule clearSync_storageName)
next
  case Size
  with assms obtain r0 where "sizeSync this m = (r0, this', m')"
    by (auto dest: returning_cases)
  then show ?thesis by (rule sizeSync_storageName)
next
  case (KeyAt i)
  with assms obtain r0 where "keySync this i m = (r0, this', m')"
    by (auto dest: returning_cases)
  then show ?thesis by (rule keySync_storageName)
qed

lemma run_storageName:
  "run cs this m = (rs, this', m') \<Longrightarrow> storageName this' = storageName this"
proof (induction cs arbitrary: this m rs)
  case Nil
  then show ?case by simp
next
  case (Cons c cs)
  obtain r this1 m1 where ex: "exec c this m = (r, this1, m1)" by (cases "exec c this m")
  obtain rs1 where run1: "run cs this1 m1 = (rs1, this', m')"
    using Cons.prems ex by (auto split: prod.splits)
  from Cons.IH[OF run1] exec_storageName[OF ex] show ?case by simp
qed

lemma exec_listed:
  assumes "initialized this m" "faults m = []" "persisted_keys this m = Some ks"
    "exec c this m = (r, this', m')"
    "key \<in> set ks \<or> items m (keyName this key) = None"
  shows "key \<in> set (spec_index (keysArrayName this) ks [c]) \<or> items m' (keyName this key) = None"
proof -
  have n: "named this" using assms(1) by (simp add: initialized_def)
  note kn = keyName_neq_keysArrayName[OF n, of key]
  show ?thesis
  proof (cases c)
    case (Get k)
    with assms(4) obtain r0 where "getItemSync this k m = (r0, this', m')"
      by (auto dest: returning_cases)
    from getItemSync_frame[OF this] assms(5) Get show ?thesis by simp
  next
    case (Set k v)
    with assms(4) obtain r0 where s: "setItemSync this k v m = (r0, this', m')"
      by (auto dest: returning_cases)
    show ?thesis
    proof (cases "k = key")
      case True
      show ?thesis
      proof (cases "key = keysArrayName this")
        case True
        with s \<open>k = key\<close> have "m' = m" by (simp add: setItemSync_def)
        with assms(5) Set \<open>k = key\<close> True show ?thesis by simp
      next
        case False
        with Set True show ?thesis by simp
      qed
    next
      case False
      from setItemSync_frame[OF s kn] False
      have "items m' (keyName this key) = items m (keyName this key)" by simp
      with assms(5) Set show ?thesis by auto
    qed
  next
    case (Remove k)
    with assms(4) obtain r0 where s: "removeItemSync this k m = (r0, this', m')"
      by (auto dest: returning_cases)
    show ?thesis
    proof (cases "k = key")
      case True
      from s removeItemSync_ok[OF assms(1-3), of k] True
      have "items m' (keyName this key) = None" by auto
      then show ?thesis by simp
    next
      case False
      from removeItemSync_frame[OF s kn] False
      have "items m' (keyName this key) = items m (keyName this key)" by simp
      with assms(5) Remove False show ?thesis by auto
    qed
  next
    case Clear
    with assms(4) obtain r0 where s: "clearSync this m = (r0, this', m')"
      by (auto dest: returning_cases)
    from s clearSync_ok[OF assms(1-3)]
    have "items m' = (items m |` (- keyName this ` set ks))
           (keysArrayName this \<mapsto> stringify (of_string_array []))" by auto
    with assms(5) kn have "items m' (keyName this key) = None"
      by (auto simp: restrict_map_def)
    then show ?thesis by simp
  next
    case Size
    with assms(4) obtain r0 where "sizeSync this m = (r0, this', m')"
      by (auto dest: returning_cases)
    from sizeSync_frame[OF this] assms(5) Size show ?thesis by simp
  next
    case (KeyAt i)
    with assms(4) obtain r0 where "keySync this i m = (r0, this', m')"
      by (auto dest: returning_cases)
    from keySync_frame[OF this] assms(5) KeyAt show ?thesis by simp
  qed
qed

lemma exec_fields:
  assumes "exec c this m = (r, this', m')"
  shows "keyName this' = keyName this"
  using exec_storageName[OF assms] by (rule keyName_storageName)

lemma run_listed:
  assumes "initialized this m" "faults m = []" "persisted_keys this m = Some ks"
    "run cs this m = (rs, this', m')"
    "key \<in> set ks \<or> items m (keyName this key) = None \<or> (\<exists>v. Set key v \<in> set cs)"
    "key \<noteq> keysArrayName this"
  shows "key \<in> set (spec_index (keysArrayName this) ks cs) \<or> items m' (keyName this key) = None"
  using assms
proof (induction cs arbitrary: this m ks rs)
  case Nil
  then show ?case by simp
next
  case (Cons c cs)
  obtain r this1 m1 where ex: "exec c this m = (r, this1, m1)" by (cases "exec c this m")
  obtain rs1 where run1: "run cs this1 m1 = (rs1, this', m')"
    using Cons.prems(4) ex by (auto split: prod.splits)
  from exec_index[OF Cons.prems(1-3) ex]
  have 1: "initialized this1 m1" "faults m1 = []" "keysArrayName this1 = keysArrayName this"
    "persisted_keys this1 m1 = Some (spec_index (keysArrayName this) ks [c])"
    by simp_all
  have kn: "keyName this1 = keyName this" by (rule exec_fields[OF ex])
  have 2: "key \<in> set (spec_index (keysArrayName this) ks [c]) \<or> items m1 (keyName this1 key) = None
         \<or> (\<exists>v. Set key v \<in> set cs)"
  proof (cases "key \<in> set ks \<or> items m (keyName this key) = None")
    case True
    from exec_listed[OF Cons.prems(1-3) ex True] kn show ?thesis by auto
  next
    case False
    with Cons.prems(5) have "(\<exists>v. c = Set key v) \<or> (\<exists>v. Set key v \<in> set cs)" by auto
    then show ?thesis
    proof
      assume "\<exists>v. c = Set key v"
      with Cons.prems(6) show ?thesis by (auto split: if_splits)
    qed blast
  qed
  from Cons.IH[OF 1(1,2,4) run1 2] Cons.prems(6) 1(3) kn
       spec_index_step[of "keysArrayName this" ks c cs]
  show ?case by simp
qed

lemma never_cached:
  assumes "initialized this m" "items m (keyName this key) = None"
  shows "entry_holds this m key None"
proof -
  have "useCache this \<Longrightarrow> keyValueCache this key = None"
  proof (rule ccontr)
    assume "useCache this" "keyValueCache this key \<noteq> None"
    with assms(1) obtain x where "persisted_value this m key = Some x"
      unfolding initialized_def mirror_agrees_def by blast
    with assms(2) show False by (simp add: persisted_value_def)
  qed
  with assms(2) show ?thesis by (simp add: entry_holds_def)
qed

lemma getItemSync_useCache:
  "getItemSync this key m = (r, this', m') \<Longrightarrow> useCache this' = useCache this"
  by (auto simp: getItemSync_def split: prod.splits sum.splits option.splits if_splits)

lemma getItem_outcome:
  "localStorage_getItem k m =
     (case outcome m 0 of
        Some n \<Rightarrow> (Inl (DOMException n), m\<lparr>faults := tl (faults m)\<rparr>)
      | None \<Rightarrow> (Inr (items m k), m\<lparr>faults := tl (faults m)\<rparr>))"
  by (cases "faults m")
     (auto simp: localStorage_getItem_def next_call_def outcome_def split: option.splits)

lemma setItem_outcome:
  "localStorage_setItem k t m =
     (case outcome m 0 of
        Some n \<Rightarrow> (Inl (DOMException n), m\<lparr>faults := tl (faults m)\<rparr>)
      | None \<Rightarrow> (Inr (), m\<lparr>faults := tl (faults m), items := (items m)(k \<mapsto> t)\<rparr>))"
  by (cases "faults m")
     (auto simp: localStorage_setItem_def next_call_def outcome_def split: option.splits)

lemma outcome_tl: "outcome (m\<lparr>faults := tl (faults m)\<rparr>) i = outcome m (Suc i)"
  by (cases "faults m") (auto simp: outcome_def)


lemma get_after_run:
  assumes "initialized this m" "faults m = []" "key \<noteq> keysArrayName this"
    "last_set key cs = None \<longrightarrow> items m (keyName this key) = None"
    "\<forall>c\<in>set cs. set_or_get key c" "run cs this m = (rs, this', m')"
  shows "fst (getItemSync this' key m') =
           Inr (case last_set key cs of
                  None \<Rightarrow> VUndefined
                | Some v \<Rightarrow> if useCache this then v else JSON_roundtrip v)"
  using assms
proof (induction cs arbitrary: this m rs)
  case Nil
  then have "this' = this" "m' = m" "items m (keyName this key) = None" by simp_all
  with get_held[OF Nil.prems(2) never_cached[OF Nil.prems(1)]] show ?case by simp
next
  case (Cons c cs)
  obtain r this1 m1 where ex: "exec c this m = (r, this1, m1)" by (cases "exec c this m")
  obtain rs1 where run1: "run cs this1 m1 = (rs1, this', m')"
    using Cons.prems(6) ex by (auto split: prod.splits)
  from Cons.prems(5) have c: "set_or_get key c" and cs: "\<forall>c\<in>set cs. set_or_get key c" by simp_all
  show ?case
  proof (cases c)
    case (Get k)
    with ex obtain r0 where g: "getItemSync this k m = (r0, this1, m1)"
      by (auto dest: returning_cases)
    note i = get_initialized[OF Cons.prems(1,2) g]
    have kn: "keyName this1 = keyName this"
      using getItemSync_storageName[OF g] by (rule keyName_storageName)
    have 3: "key \<noteq> keysArrayName this1" using i(3) Cons.prems(3) by simp
    have 4: "last_set key cs = None \<longrightarrow> items m1 (keyName this1 key) = None"
      using Cons.prems(4) Get i(2) kn by simp
    have 2: "faults m1 = []" using i(2) Cons.prems(2) by simp
    from Cons.IH[OF i(1) 2 3 4 cs run1] getItemSync_useCache[OF g] Get
    show ?thesis by (simp split: option.splits)
  next
    case (Set k v)
    with c have k: "k = key" by (simp add: set_or_get_def)
    with Set ex obtain r0 where s: "setItemSync this key v m = (r0, this1, m1)"
      by (auto dest: returning_cases)
    from Cons.prems(1) obtain ks where ks: "persisted_keys this m = Some ks"
      by (auto simp: initialized_def)
    note i = set_initialized[OF Cons.prems(1,2) ks Cons.prems(3) s]
    note h = set_holds[OF Cons.prems(1,2,3) s]
    from h(4) Cons.prems(3) have ne: "key \<noteq> keysArrayName this1" by simp
    from run_set_get[OF i(1) i(3) ne h(2) cs run1]
    have "faults m' = []" "useCache this' = useCache this1"
      "entry_holds this' m' key (case last_set key cs of None \<Rightarrow> Some v | Some v' \<Rightarrow> Some v')"
      by simp_all
    from get_held[OF this(1,3)] this(2) h(3) Set k
    show ?thesis by (simp split: option.splits)
  qed (use c in \<open>simp_all add: set_or_get_def\<close>)
qed

subsection \<open>Calls that throw, with caching\<close>


lemma initialized_cache:
  assumes "initialized this m" "useCache this"
  shows "\<exists>ks. keysArrayCache this = of_string_array ks \<and> persisted_keys this m = Some ks"
proof -
  from assms(1) obtain ks where "persisted_keys this m = Some ks"
    by (auto simp: initialized_def)
  with cached_index[OF assms this] show ?thesis by blast
qed

lemma keysArray_of_initialized:
  assumes "useCache this" "keysArrayCache this = of_string_array ks"
  shows "keysArray_of this m = (Inr ks, this, m)"
  using assms by (simp add: keysArray_of_def as_string_array_of)




lemma size_completes:
  assumes "useCache this" "keysArrayCache this = of_string_array ks"
  shows "sizeSync this m = (Inr (length ks), this, m)"
  by (simp add: sizeSync_def keysArray_of_initialized[OF assms])

lemma key_completes:
  assumes "useCache this" "keysArrayCache this = of_string_array ks"
  shows "\<exists>x. keySync this i m = (Inr x, this, m)"
  by (simp add: keySync_def keysArray_of_initialized[OF assms])





text \<open>
  Every call that throws on an initialized caching instance is settled, or a \<open>set\<close> of a
  new key whose write of the index raised, or a \<open>remove\<close> or \<open>clear\<close> whose first call
  on the medium succeeded.
\<close>

lemma outcome_tl_items:
  "outcome (m\<lparr>faults := tl (faults m), items := x\<rparr>) i = outcome m (Suc i)"
  by (cases "faults m") (auto simp: outcome_def)

lemma set_thrown_cases:
  assumes "useCache this" "keysArrayCache this = of_string_array ks"
    "setItemSync this key v m = (Inl e, this', m')"
  shows "key = keysArrayName this \<or> entry_write_raised key this m \<or> index_write_raised key this m"
proof (cases "key = keysArrayName this")
  case True
  then show ?thesis by simp
next
  case False
  note ka = keysArray_of_initialized[OF assms(1,2)]
  show ?thesis
  proof (cases "key \<in> set ks")
    case True
    with assms(3) False have "outcome m 0 \<noteq> None"
      by (auto simp: setItemSync_def ka setItem_outcome split: option.splits)
    with True show ?thesis
      by (simp add: entry_write_raised_def assms(2) as_string_array_of)
  next
    case new: False
    show ?thesis
    proof (cases "outcome m 0")
      case (Some n)
      with new False show ?thesis
        by (simp add: index_write_raised_def assms(2) as_string_array_of)
    next
      case None
      with assms(3) False new assms(1) have "outcome m (Suc 0) \<noteq> None"
        by (auto simp: setItemSync_def ka setItem_outcome Let_def outcome_tl_items
                 split: option.splits)
      with None new show ?thesis
        by (simp add: entry_write_raised_def assms(2) as_string_array_of)
    qed
  qed
qed

lemma thrown_cases:
  assumes "initialized this m" "useCache this" "exec c this m = (Inl e, this', m')"
  shows "settled c this m (Inl e) \<or>
         (\<exists>key v. c = Set key v \<and> index_write_raised key this m) \<or>
         (((\<exists>key. c = Remove key) \<or> c = Clear) \<and> outcome m 0 = None)"
proof -
  from initialized_cache[OF assms(1,2)] obtain ks where
    c: "keysArrayCache this = of_string_array ks" by blast
  show ?thesis
  proof (cases c)
    case (Get key)
    then show ?thesis by (simp add: settled_def)
  next
    case (Set key v)
    with assms(3) have "setItemSync this key v m = (Inl e, this', m')"
      by (cases "setItemSync this key v m"; cases "fst (setItemSync this key v m)")
         (auto simp: returning_def)
    from set_thrown_cases[OF assms(2) c this] Set show ?thesis
      by (auto simp: settled_def)
  next
    case (Remove key)
    then show ?thesis by (cases "outcome m 0") (simp_all add: settled_def)
  next
    case Clear
    then show ?thesis by (cases "outcome m 0") (simp_all add: settled_def)
  next
    case Size
    with assms(3) size_completes[OF assms(2) c, of m] show ?thesis
      by (simp add: returning_def)
  next
    case (KeyAt i)
    with assms(3) key_completes[OF assms(2) c, of i m] show ?thesis
      by (auto simp: returning_def)
  qed
qed




text \<open>
  With caching, \<open>keysArray.push(key)\<close> in \<open>setItemSync\<close> acts on the array that
  \<open>this.keysArrayCache\<close> holds. A \<open>set\<close> of a new key whose write of the index raises
  therefore leaves the key in the cached index while the medium does not list it, and
  \<open>size\<close> then counts it. The source places \<open>// Update keysArray cache\<close> after the
  write, and \<open>removeItemSync\<close> and \<open>clearSync\<close> change the cache last: this is the one
  place where the cache changes before the medium.
\<close>

lemma index_write_raised_cache_ahead:
  "index_write_raised ''k'' (fst (scheduled [Some ''QuotaExceededError''] (opened caching)))
     (snd (scheduled [Some ''QuotaExceededError''] (opened caching))) \<and>
   fst (run [Set ''k'' VNull, Size] (fst (scheduled [Some ''QuotaExceededError''] (opened caching)))
          (snd (scheduled [Some ''QuotaExceededError''] (opened caching))))
     = [Inl (DOMException ''QuotaExceededError''), Inr (Count 1)] \<and>
   persisted_keys (fst (after [Set ''k'' VNull, Size] (scheduled [Some ''QuotaExceededError''] (opened caching))))
                  (snd (after [Set ''k'' VNull, Size] (scheduled [Some ''QuotaExceededError''] (opened caching))))
     = Some []"
  by code_simp

section \<open>The claims\<close>

subsection \<open>C1: reading back the last value set\<close>

text \<open>
  C1. In an initialized namespace on a medium that does not raise, take a key other than the
  reserved index key and any sequence of \<open>set\<close> and \<open>get\<close> calls on that key. A \<open>get\<close>
  issued after the sequence returns, if the sequence holds a \<open>set\<close>, the value passed to the
  most recent one when caching is on and the JSON round trip of that value when caching is
  off; and if it holds none and no Entry is stored for the key (the key was never set),
  \<open>undefined\<close>. The round trip leaves JSON data as it is: \<open>null\<close> stays \<open>null\<close>, and
  \<open>undefined\<close> comes back as \<open>undefined\<close>.
\<close>

theorem get_returns_last_set:
  assumes "initialized this m" "faults m = []" "key \<noteq> keysArrayName this"
    "last_set key cs = None \<longrightarrow> items m (keyName this key) = None"
    "\<forall>c\<in>set cs. set_or_get key c" "run cs this m = (rs, this', m')"
  shows "fst (getItemSync this' key m') =
           Inr (case last_set key cs of
                  None \<Rightarrow> VUndefined
                | Some v \<Rightarrow> if useCache this then v else JSON_roundtrip v) \<and>
         JSON_roundtrip VNull = VNull \<and> JSON_roundtrip VUndefined = VUndefined \<and>
         (\<forall>j. JSON_roundtrip (from_json j) = from_json j)"
  using get_after_run[OF assms] by (simp add: JSON_roundtrip_from_json) (simp add: JSON_roundtrip_def)

theorem get_returns_last_set_witness:
  "initialized (fst (opened plain)) (snd (opened plain)) \<and>
   faults (snd (opened plain)) = [] \<and>
   ''k'' \<noteq> keysArrayName (fst (opened plain)) \<and>
   list_all (set_or_get ''k'') [Set ''k'' (VNumber 1), Get ''k'', Set ''k'' VNull] \<and>
   fst (getItemSync
         (fst (after [Set ''k'' (VNumber 1), Get ''k'', Set ''k'' VNull] (opened plain))) ''k''
         (snd (after [Set ''k'' (VNumber 1), Get ''k'', Set ''k'' VNull] (opened plain))))
     = Inr VNull \<and>
   fst (getItemSync (fst (after [] (opened plain))) ''k'' (snd (after [] (opened plain))))
     = Inr VUndefined"
proof -
  have 1: "initialized (fst (opened plain)) (snd (opened plain))"
    by (rule initialized_opened_plain)
  have 2: "faults (snd (opened plain)) = []" by (simp add: opened_plain)
  have 3: "''k'' \<noteq> keysArrayName (fst (opened plain))" by (simp add: opened_plain)
  have 4: "last_set ''k'' cs = None \<longrightarrow> items (snd (opened plain)) (keyName (fst (opened plain)) ''k'') = None" for cs
    by (simp add: opened_plain keyName_def)
  have 5: "\<forall>c\<in>set [Set ''k'' (VNumber 1), Get ''k'', Set ''k'' VNull]. set_or_get ''k'' c"
    by (simp add: set_or_get_def)
  have 6: "\<not> useCache (fst (opened plain))" by (simp add: opened_plain)
  from get_returns_last_set[OF 1 2 3 4 5 run_after]
       get_returns_last_set[OF 1 2 3 4 _ run_after, of "[]"] 1 2 3 5 6
  show ?thesis by (simp add: JSON_roundtrip_def list_all_iff)
qed

text \<open>
  With caching off, an array holding \<open>undefined\<close> is read back with \<open>null\<close> in its place.
\<close>

theorem get_returns_last_set_counterexample:
  "fst (run [Set ''k'' (VArray [VUndefined]), Get ''k''] (fst (opened plain)) (snd (opened plain)))
     = [Inr Done, Inr (Value (VArray [VNull]))] \<and>
   VArray [VNull] \<noteq> VArray [VUndefined]"
  by code_simp

subsection \<open>C2: the mirror and the medium\<close>




subsection \<open>C3: namespaces\<close>

text \<open>
  C3. Take two namespaces whose storage names are separated: they differ, and neither name
  followed by \<open>-\<close> is a prefix of the other name followed by \<open>-\<close> or of the other's
  index key (so it is for two different names without \<open>-\<close> neither of which is \<open>__\<close>
  followed by the other). Then no operation on namespace A (\<open>get\<close>, \<open>set\<close>, \<open>remove\<close>,
  \<open>clear\<close>, \<open>size\<close>, \<open>keyAt\<close>, or its initialization), whether it returns or throws, changes
  the key-index record or any Entry of namespace B, and \<open>size\<close> on B gives the same result
  after it as before.
\<close>

theorem namespaces_do_not_interfere:
  assumes "named a" "named b" "separated (storageName a) (storageName b)"
    "exec c a m = (r, a', m') \<or> initSync setup a0 m = (e, a, m')"
  shows "items m' (keysArrayName b) = items m (keysArrayName b) \<and>
         (\<forall>k. items m' (keyName b k) = items m (keyName b k)) \<and>
         (\<forall>fs. fst (sizeSync b (m'\<lparr>faults := fs\<rparr>)) = fst (sizeSync b (m\<lparr>faults := fs\<rparr>)))"
proof -
  note sk = separated_keys[OF assms(1-3)]
  have f: "items m' p = items m p" if "p \<noteq> keysArrayName a" "\<forall>k. p \<noteq> keyName a k" for p
    using assms(4)
  proof
    assume "exec c a m = (r, a', m')"
    from exec_frame[OF this that] show ?thesis .
  next
    assume "initSync setup a0 m = (e, a, m')"
    from initSync_frame[OF this that(1)] show ?thesis .
  qed
  have 1: "items m' (keysArrayName b) = items m (keysArrayName b)"
    using sk(1,2) by (intro f) simp_all
  have 2: "items m' (keyName b k) = items m (keyName b k)" for k
    using sk(3,4) by (intro f) simp_all
  have 3: "fst (sizeSync b (m'\<lparr>faults := fs\<rparr>)) = fst (sizeSync b (m\<lparr>faults := fs\<rparr>))" for fs
    using 1 by (intro sizeSync_items) simp_all
  from 1 2 3 show ?thesis by blast
qed

theorem namespaces_do_not_interfere_witness:
  "separated ''a'' ''b'' \<and>
   items (snd (after [Clear] (instance_named ''a'', snd (after [Set ''k'' (VNumber 1)] (instance_named ''b'', two_namespaces ''a'' ''b'')))))
     (keyName (instance_named ''b'') ''k'') = Some (Json (JObject [(''value'', JNumber 1)])) \<and>
   fst (sizeSync (instance_named ''b'')
     (snd (after [Clear] (instance_named ''a'', snd (after [Set ''k'' (VNumber 1)] (instance_named ''b'', two_namespaces ''a'' ''b'')))))) = Inr 1"
proof -
  let ?m = "snd (after [Set ''k'' (VNumber 1)] (instance_named ''b'', two_namespaces ''a'' ''b''))"
  let ?m' = "snd (after [Clear] (instance_named ''a'', ?m))"
  have 1: "named (instance_named ''a'')" "named (instance_named ''b'')"
    by (simp_all add: instance_named named_def)
  have 2: "separated (storageName (instance_named ''a'')) (storageName (instance_named ''b''))"
    by (simp add: instance_named separated_def)
  have 3: "exec Clear (instance_named ''a'') ?m = (fst (exec Clear (instance_named ''a'') ?m), fst (after [Clear] (instance_named ''a'', ?m)), ?m')
     \<or> initSync (setup_named ''a'') new_LocalStorageInterface ?m = (None, instance_named ''a'', ?m')"
    by (simp add: after_def split: prod.splits)
  have 4: "items ?m (keyName (instance_named ''b'') ''k'') = Some (Json (JObject [(''value'', JNumber 1)]))"
    by code_simp
  have 5: "fst (sizeSync (instance_named ''b'') ?m) = Inr 1"
    by code_simp
  have "faults ?m = []" by code_simp
  then have "?m\<lparr>faults := []\<rparr> = ?m\<lparr>faults := faults ?m\<rparr>" by (simp only:)
  then have 6: "?m\<lparr>faults := []\<rparr> = ?m" by simp
  have "faults ?m' = []" by code_simp
  then have "?m'\<lparr>faults := []\<rparr> = ?m'\<lparr>faults := faults ?m'\<rparr>" by (simp only:)
  then have 7: "?m'\<lparr>faults := []\<rparr> = ?m'" by simp
  from namespaces_do_not_interfere[OF 1 2 3]
  have "items ?m' (keyName (instance_named ''b'') ''k'') = items ?m (keyName (instance_named ''b'') ''k'')"
    and "fst (sizeSync (instance_named ''b'') (?m'\<lparr>faults := []\<rparr>)) =
         fst (sizeSync (instance_named ''b'') (?m\<lparr>faults := []\<rparr>))"
    by blast+
  with 4 5 6 7 have "items ?m' (keyName (instance_named ''b'') ''k'') = Some (Json (JObject [(''value'', JNumber 1)]))"
    and "fst (sizeSync (instance_named ''b'') ?m') = Inr 1"
    by simp_all
  moreover have "separated ''a'' ''b''" by (simp add: separated_def)
  ultimately show ?thesis by blast
qed

text \<open>
  Different names do not keep namespaces apart. Namespaces \<open>a\<close> and \<open>a-b\<close> share the
  physical key \<open>a-b-c\<close> (key \<open>b-c\<close> of the one, key \<open>c\<close> of the other), so \<open>clear\<close> on
  \<open>a\<close> removes an Entry that \<open>a-b\<close> wrote. The index key of namespace \<open>b\<close> is the
  physical key of \<open>keys-array\<close> in namespace \<open>__b\<close>, so a \<open>remove\<close> there deletes the
  index of \<open>b\<close>, and \<open>size\<close> on \<open>b\<close> throws where it returned 0.
\<close>

theorem namespaces_interfere_counterexample:
  "''a'' \<noteq> ''a-b'' \<and>
   items (snd (after [Set ''c'' (VNumber 1)] (instance_named ''a-b'',
            snd (after [Set ''b-c'' (VNumber 2)] (instance_named ''a'', two_namespaces ''a'' ''a-b'')))))
         (keyName (instance_named ''a-b'') ''c'')
     = Some (Json (JObject [(''value'', JNumber 1)])) \<and>
   items (snd (after [Clear] (instance_named ''a'',
            snd (after [Set ''c'' (VNumber 1)] (instance_named ''a-b'',
              snd (after [Set ''b-c'' (VNumber 2)] (instance_named ''a'', two_namespaces ''a'' ''a-b'')))))))
         (keyName (instance_named ''a-b'') ''c'')
     = None \<and>
   ''__b'' \<noteq> ''b'' \<and>
   fst (sizeSync (instance_named ''b'') (two_namespaces ''__b'' ''b'')) = Inr 0 \<and>
   fst (sizeSync (instance_named ''b'')
          (snd (after [Remove ''keys-array''] (instance_named ''__b'', two_namespaces ''__b'' ''b''))))
     = Inl (Error (''storage-facade: LocalStorageInterface: '' @ [CHR 0x27] @ ''__b-keys-array'' @ [CHR 0x27] @ '' not found.''))"
  by code_simp

subsection \<open>C4: the reserved key\<close>

text \<open>
  C4. For an instance that carries the names \<open>initSync\<close> computes (as every initialized
  namespace does), \<open>set\<close> with the logical key \<open>__<storageName>-keys-array\<close> throws the
  adapter's reserved-key \<open>Error\<close> and changes nothing: the instance, with both mirrors, and
  the medium, with the key index and every Entry, are as they were before the call.
\<close>

theorem reserved_key_rejected:
  assumes "named this"
  shows "setItemSync this (''__'' @ storageName this @ ''-keys-array'') value m =
           (Inl (Error (''storage-facade: LocalStorageInterface:key '' @ [CHR 0x27] @
                        ''__'' @ storageName this @ ''-keys-array'' @ [CHR 0x27] @
                        '' cannot be used.'')),
            this, m)"
  using assms by (simp add: setItemSync_def named_def interfaceName_def)

theorem reserved_key_rejected_witness:
  "named (instance_named ''s'') \<and>
   setItemSync (instance_named ''s'') ''__s-keys-array'' VNull empty_medium =
     (Inl (Error (''storage-facade: LocalStorageInterface:key '' @ [CHR 0x27] @
                  ''__s-keys-array'' @ [CHR 0x27] @ '' cannot be used.'')),
      instance_named ''s'', empty_medium)"
proof -
  have n: "named (instance_named ''s'')" by (simp add: instance_named named_def)
  from reserved_key_rejected[OF n, of VNull empty_medium] n
  show ?thesis by (simp add: instance_named)
qed

subsection \<open>C5: clear\<close>

text \<open>
  C5. Take an initialized namespace on a medium that does not raise, any sequence of
  operations on it, and then \<open>clear\<close>. The \<open>clear\<close> returns, after it \<open>size\<close> returns 0,
  and for every key that was listed in the key index before the \<open>clear\<close>, and for every key
  that a \<open>set\<close> of the sequence was given (the reserved index key apart, which \<open>set\<close>
  rejects), the physical Entry is absent from the medium and \<open>get\<close> returns \<open>undefined\<close>.
\<close>

theorem clear_empties_namespace:
  assumes "initialized this m" "faults m = []" "persisted_keys this m = Some ks"
    "run cs this m = (rs, this1, m1)" "persisted_keys this1 m1 = Some ks1"
    "clearSync this1 m1 = (r, this', m')"
  shows "r = Inr () \<and> fst (sizeSync this' m') = Inr 0 \<and>
         (\<forall>key. key \<in> set ks1 \<or> (key \<noteq> keysArrayName this \<and> (\<exists>v. Set key v \<in> set cs)) \<longrightarrow>
                items m' (keyName this key) = None \<and>
                fst (getItemSync this' key m') = Inr VUndefined)"
proof -
  from run_index[OF assms(1-4)]
  have 1: "initialized this1 m1" "faults m1 = []" "keysArrayName this1 = keysArrayName this"
    "persisted_keys this1 m1 = Some (spec_index (keysArrayName this) ks cs)"
    by simp_all
  with assms(5) have ks1: "ks1 = spec_index (keysArrayName this) ks cs" by simp
  have n: "named this1" using 1(1) by (simp add: initialized_def)
  have kn1: "keyName this1 = keyName this"
    using run_storageName[OF assms(4)] by (rule keyName_storageName)
  have "(r, this', m') = (Inr (),
      (if useCache this1
       then this1\<lparr>keyValueCache := Map.empty, keysArrayCache := of_string_array []\<rparr>
       else this1),
      m1\<lparr>items := (items m1 |` (- keyName this1 ` set ks1))
           (keysArrayName this1 \<mapsto> stringify (of_string_array []))\<rparr>)"
    using assms(6)[symmetric] clearSync_ok[OF 1(1,2) assms(5)] by (rule trans)
  then have r: "r = Inr ()"
    and st: "this' = (if useCache this1
       then this1\<lparr>keyValueCache := Map.empty, keysArrayCache := of_string_array []\<rparr>
       else this1)"
     "m' = m1\<lparr>items := (items m1 |` (- keyName this1 ` set ks1))
           (keysArrayName this1 \<mapsto> stringify (of_string_array []))\<rparr>"
    by blast+
  note i = clear_initialized[OF 1(1,2) assms(5,6)]
  have s: "fst (sizeSync this' m') = Inr 0" by (simp add: sizeSync_ok[OF i(1,3,2)])
  have g: "items m' (keyName this key) = None \<and> fst (getItemSync this' key m') = Inr VUndefined"
    if "key \<in> set ks1 \<or> (key \<noteq> keysArrayName this \<and> (\<exists>v. Set key v \<in> set cs))" for key
  proof -
    have "key \<in> set ks1 \<or> items m1 (keyName this key) = None"
    proof (cases "key \<in> set ks1")
      case True
      then show ?thesis by simp
    next
      case False
      with that have "key \<noteq> keysArrayName this" "\<exists>v. Set key v \<in> set cs" by simp_all
      from run_listed[OF assms(1-4) _ this(1)] this(2) ks1 show ?thesis by simp
    qed
    then have a: "items m' (keyName this key) = None"
      using st(2) kn1 keyName_neq_keysArrayName[OF n, of key] by (auto simp: restrict_map_def)
    have kn: "keyName this' = keyName this" using st(1) kn1 by (simp split: if_splits)
    have "getItemSync this' key m' = (Inr VUndefined, this', m')"
      using i(3) a kn st(1) by (intro getItemSync_absent) (simp_all split: if_splits)
    with a show ?thesis by simp
  qed
  from r s g show ?thesis by blast
qed

theorem clear_empties_namespace_witness:
  "initialized (fst (opened caching)) (snd (opened caching)) \<and>
   persisted_keys (fst two_keys) (snd two_keys) = Some [''a'', ''b''] \<and>
   fst (clearSync (fst two_keys) (snd two_keys)) = Inr () \<and>
   fst (sizeSync (fst (snd (clearSync (fst two_keys) (snd two_keys))))
                 (snd (snd (clearSync (fst two_keys) (snd two_keys))))) = Inr 0 \<and>
   items (snd (snd (clearSync (fst two_keys) (snd two_keys)))) (keyName (fst (opened caching)) ''a'') = None \<and>
   fst (getItemSync (fst (snd (clearSync (fst two_keys) (snd two_keys)))) ''b''
                    (snd (snd (clearSync (fst two_keys) (snd two_keys))))) = Inr VUndefined"
proof -
  have f: "faults (snd (opened caching)) = []" by (simp add: opened_caching)
  have r: "run [Set ''a'' (VNumber 1), Set ''b'' VNull] (fst (opened caching)) (snd (opened caching)) =
    (fst (run [Set ''a'' (VNumber 1), Set ''b'' VNull] (fst (opened caching)) (snd (opened caching))),
     fst two_keys, snd two_keys)"
    by (simp add: two_keys_def after_def)
  have c: "clearSync (fst two_keys) (snd two_keys) =
    (fst (clearSync (fst two_keys) (snd two_keys)),
     fst (snd (clearSync (fst two_keys) (snd two_keys))),
     snd (snd (clearSync (fst two_keys) (snd two_keys))))" by simp
  from clear_empties_namespace[OF initialized_opened_caching f opened_caching_keys r two_keys(3) c]
    initialized_opened_caching two_keys(3)
  show ?thesis by simp
qed

subsection \<open>C6: the key index keeps insertion order\<close>

text \<open>
  C6. In an initialized namespace on a medium that does not raise, after any sequence of
  operations the key index is the sequence that the Key Index Manager of the specification
  computes from the index before: \<open>set\<close> of a key already present (or of the reserved index
  key) changes nothing, \<open>set\<close> of a new key appends it, \<open>remove\<close> filters the key out and
  \<open>clear\<close> empties the sequence. \<open>size\<close> returns its length, \<open>keyAt i\<close> returns its
  \<open>i\<close>-th key for \<open>0 \<le> i < size\<close>, and \<open>keyAt\<close> with any other index returns
  \<open>undefined\<close> instead of raising.
\<close>

theorem index_is_insertion_order:
  assumes "initialized this m" "faults m = []" "persisted_keys this m = Some ks"
    "run cs this m = (rs, this', m')"
  shows "fst (sizeSync this' m') = Inr (length (spec_index (keysArrayName this) ks cs)) \<and>
         (\<forall>i. fst (keySync this' i m') =
                Inr (if 0 \<le> i \<and> i < int (length (spec_index (keysArrayName this) ks cs))
                     then Some (spec_index (keysArrayName this) ks cs ! nat i) else None))"
proof -
  from run_index[OF assms]
  have 1: "initialized this' m'" "faults m' = []"
    "persisted_keys this' m' = Some (spec_index (keysArrayName this) ks cs)"
    by simp_all
  show ?thesis by (simp add: sizeSync_ok[OF 1] keySync_ok[OF 1])
qed

theorem index_is_insertion_order_witness:
  "initialized (fst (opened plain)) (snd (opened plain)) \<and>
   fst (sizeSync
     (fst (after [Set ''a'' VNull, Set ''b'' VNull, Set ''a'' (VNumber 3), Remove ''b'', Set ''c'' VNull, Set ''b'' VNull] (opened plain)))
     (snd (after [Set ''a'' VNull, Set ''b'' VNull, Set ''a'' (VNumber 3), Remove ''b'', Set ''c'' VNull, Set ''b'' VNull] (opened plain))))
     = Inr 3 \<and>
   fst (keySync
     (fst (after [Set ''a'' VNull, Set ''b'' VNull, Set ''a'' (VNumber 3), Remove ''b'', Set ''c'' VNull, Set ''b'' VNull] (opened plain))) 1
     (snd (after [Set ''a'' VNull, Set ''b'' VNull, Set ''a'' (VNumber 3), Remove ''b'', Set ''c'' VNull, Set ''b'' VNull] (opened plain))))
     = Inr (Some ''c'') \<and>
   fst (keySync
     (fst (after [Set ''a'' VNull, Set ''b'' VNull, Set ''a'' (VNumber 3), Remove ''b'', Set ''c'' VNull, Set ''b'' VNull] (opened plain))) 3
     (snd (after [Set ''a'' VNull, Set ''b'' VNull, Set ''a'' (VNumber 3), Remove ''b'', Set ''c'' VNull, Set ''b'' VNull] (opened plain))))
     = Inr None"
proof -
  have f: "faults (snd (opened plain)) = []" by (simp add: opened_plain)
  have k: "keysArrayName (fst (opened plain)) = ''__s-keys-array''" by (simp add: opened_plain)
  from index_is_insertion_order[OF initialized_opened_plain f opened_plain_keys run_after,
      of "[Set ''a'' VNull, Set ''b'' VNull, Set ''a'' (VNumber 3), Remove ''b'', Set ''c'' VNull, Set ''b'' VNull]"]
    initialized_opened_plain
  show ?thesis by (simp add: k)
qed

subsection \<open>C7: remove\<close>

text \<open>
  C7. In an initialized namespace on a medium that does not raise, \<open>remove\<close> of any key
  returns without error; a \<open>get\<close> of that key after it returns \<open>undefined\<close>; if the key was
  not listed in the key index, the persisted index is the same sequence as before and the
  cached index is unchanged; and a second \<open>remove\<close> of the key returns and leaves the
  instance and the medium exactly as the first left them.
\<close>

theorem remove_is_idempotent:
  assumes "initialized this m" "faults m = []" "persisted_keys this m = Some ks"
    "removeItemSync this key m = (r, this', m')"
  shows "r = Inr () \<and> fst (getItemSync this' key m') = Inr VUndefined \<and>
         (key \<notin> set ks \<longrightarrow> persisted_keys this' m' = Some ks \<and> keysArrayCache this' = keysArrayCache this) \<and>
         removeItemSync this' key m' = (Inr (), this', m')"
proof -
  have n: "named this" using assms(1) by (simp add: initialized_def)
  let ?ks' = "filter (\<lambda>k. k \<noteq> key) ks"
  have "(r, this', m') = (Inr (),
      (if useCache this
       then this\<lparr>keyValueCache := (keyValueCache this)(key := None),
                 keysArrayCache := of_string_array ?ks'\<rparr>
       else this),
      m\<lparr>items := (items m)
           (keysArrayName this \<mapsto> stringify (of_string_array ?ks'),
            keyName this key := None)\<rparr>)"
    using assms(4)[symmetric] removeItemSync_ok[OF assms(1-3)] by (rule trans)
  then have r: "r = Inr ()"
    and st: "this' = (if useCache this
       then this\<lparr>keyValueCache := (keyValueCache this)(key := None),
                 keysArrayCache := of_string_array ?ks'\<rparr>
       else this)"
     "m' = m\<lparr>items := (items m)
           (keysArrayName this \<mapsto> stringify (of_string_array ?ks'),
            keyName this key := None)\<rparr>"
    by blast+
  note i = remove_initialized[OF assms]
  have kn: "keyName this' = keyName this" using st(1) by (intro keyName_storageName) simp
  have a: "items m' (keyName this key) = None" using st(2) by simp
  have g: "getItemSync this' key m' = (Inr VUndefined, this', m')"
    using i(3) a kn st(1) by (intro getItemSync_absent) (simp_all split: if_splits)
  have u: "persisted_keys this' m' = Some ks \<and> keysArrayCache this' = keysArrayCache this"
    if "key \<notin> set ks"
  proof -
    from that have f: "?ks' = ks" by (induction ks) auto
    with i(2) have "persisted_keys this' m' = Some ks" by simp
    moreover have "keysArrayCache this' = keysArrayCache this"
      using st(1) f cached_index[OF assms(1) _ assms(3)] by (simp split: if_splits)
    ultimately show ?thesis by simp
  qed
  have "filter (\<lambda>k. k \<noteq> key) ?ks' = ?ks'" by simp
  have t: "removeItemSync this' key m' = (Inr (), this', m')"
  proof -
    have "removeItemSync this' key m' = (Inr (),
      (if useCache this'
       then this'\<lparr>keyValueCache := (keyValueCache this')(key := None),
                 keysArrayCache := of_string_array (filter (\<lambda>k. k \<noteq> key) ?ks')\<rparr>
       else this'),
      m'\<lparr>items := (items m')
           (keysArrayName this' \<mapsto> stringify (of_string_array (filter (\<lambda>k. k \<noteq> key) ?ks')),
            keyName this' key := None)\<rparr>)"
      by (rule removeItemSync_ok[OF i(1,3,2)])
    also have "(if useCache this'
       then this'\<lparr>keyValueCache := (keyValueCache this')(key := None),
                 keysArrayCache := of_string_array (filter (\<lambda>k. k \<noteq> key) ?ks')\<rparr>
       else this') = this'"
      using st(1) by simp
    also have "m'\<lparr>items := (items m')
           (keysArrayName this' \<mapsto> stringify (of_string_array (filter (\<lambda>k. k \<noteq> key) ?ks')),
            keyName this' key := None)\<rparr> = m'"
    proof -
      have "keysArrayName this' = keysArrayName this" using st(1) by simp
      moreover have "(items m')(keysArrayName this \<mapsto> stringify (of_string_array ?ks'),
            keyName this key := None) = items m'"
        using st(2) keyName_neq_keysArrayName[OF n, of key] by (auto simp: fun_eq_iff)
      ultimately show ?thesis using kn by simp
    qed
    finally show ?thesis .
  qed
  from r g u t show ?thesis by simp
qed

theorem remove_is_idempotent_witness:
  "initialized (fst two_keys) (snd two_keys) \<and>
   fst (removeItemSync (fst two_keys) ''a'' (snd two_keys)) = Inr () \<and>
   fst (getItemSync (fst (snd (removeItemSync (fst two_keys) ''a'' (snd two_keys)))) ''a''
                    (snd (snd (removeItemSync (fst two_keys) ''a'' (snd two_keys))))) = Inr VUndefined \<and>
   removeItemSync (fst (snd (removeItemSync (fst two_keys) ''a'' (snd two_keys)))) ''a''
                  (snd (snd (removeItemSync (fst two_keys) ''a'' (snd two_keys)))) =
     (Inr (), snd (removeItemSync (fst two_keys) ''a'' (snd two_keys))) \<and>
   persisted_keys (fst (snd (removeItemSync (fst two_keys) ''z'' (snd two_keys))))
                  (snd (snd (removeItemSync (fst two_keys) ''z'' (snd two_keys)))) = Some [''a'', ''b'']"
proof -
  have c: "removeItemSync (fst two_keys) k (snd two_keys) =
    (fst (removeItemSync (fst two_keys) k (snd two_keys)),
     fst (snd (removeItemSync (fst two_keys) k (snd two_keys))),
     snd (snd (removeItemSync (fst two_keys) k (snd two_keys))))" for k by simp
  from remove_is_idempotent[OF two_keys(1-3) c, of "''a''"]
       remove_is_idempotent[OF two_keys(1-3) c, of "''z''"] two_keys(1)
  show ?thesis by simp
qed

subsection \<open>C8: the index was never created\<close>

text \<open>
  C8. When the medium holds no key-index record for the namespace and does not raise,
  \<open>getKeysArray\<close> throws the adapter's \<open>not found\<close> \<open>Error\<close> naming the index key, and so
  does every method that reads the index from the medium, which with caching off are
  \<open>set\<close> (of a key other than the reserved one), \<open>remove\<close>, \<open>clear\<close>, \<open>size\<close> and
  \<open>keyAt\<close>; the instance and the medium are left as they were.
\<close>

theorem index_not_found:
  assumes "items m (keysArrayName this) = None" "faults m = []"
  shows "getKeysArray this m =
           (Inl (Error (''storage-facade: LocalStorageInterface: '' @ [CHR 0x27] @
                        keysArrayName this @ [CHR 0x27] @ '' not found.'')), this, m) \<and>
         (\<not> useCache this \<longrightarrow>
            (key \<noteq> keysArrayName this \<longrightarrow>
               setItemSync this key value m =
                 (Inl (Error (''storage-facade: LocalStorageInterface: '' @ [CHR 0x27] @
                              keysArrayName this @ [CHR 0x27] @ '' not found.'')), this, m)) \<and>
            removeItemSync this key m =
              (Inl (Error (''storage-facade: LocalStorageInterface: '' @ [CHR 0x27] @
                           keysArrayName this @ [CHR 0x27] @ '' not found.'')), this, m) \<and>
            clearSync this m =
              (Inl (Error (''storage-facade: LocalStorageInterface: '' @ [CHR 0x27] @
                           keysArrayName this @ [CHR 0x27] @ '' not found.'')), this, m) \<and>
            sizeSync this m =
              (Inl (Error (''storage-facade: LocalStorageInterface: '' @ [CHR 0x27] @
                           keysArrayName this @ [CHR 0x27] @ '' not found.'')), this, m) \<and>
            keySync this index m =
              (Inl (Error (''storage-facade: LocalStorageInterface: '' @ [CHR 0x27] @
                           keysArrayName this @ [CHR 0x27] @ '' not found.'')), this, m))"
proof -
  have g: "getKeysArray this m =
           (Inl (Error (''storage-facade: LocalStorageInterface: '' @ [CHR 0x27] @
                        keysArrayName this @ [CHR 0x27] @ '' not found.'')), this, m)"
    using assms by (simp add: getKeysArray_def getItem_ok interfaceName_def)
  then have k: "\<not> useCache this \<Longrightarrow> keysArray_of this m =
           (Inl (Error (''storage-facade: LocalStorageInterface: '' @ [CHR 0x27] @
                        keysArrayName this @ [CHR 0x27] @ '' not found.'')), this, m)"
    by (simp add: keysArray_of_def)
  show ?thesis
    using g k
    by (simp add: setItemSync_def removeItemSync_def clearSync_def sizeSync_def keySync_def)
qed

theorem index_not_found_witness:
  "items empty_medium (keysArrayName (instance_named ''s'')) = None \<and>
   sizeSync (instance_named ''s'') empty_medium =
     (Inl (Error (''storage-facade: LocalStorageInterface: '' @ [CHR 0x27] @
                  ''__s-keys-array'' @ [CHR 0x27] @ '' not found.'')),
      instance_named ''s'', empty_medium) \<and>
   setItemSync (instance_named ''s'') ''k'' VNull empty_medium =
     (Inl (Error (''storage-facade: LocalStorageInterface: '' @ [CHR 0x27] @
                  ''__s-keys-array'' @ [CHR 0x27] @ '' not found.'')),
      instance_named ''s'', empty_medium)"
proof -
  have 1: "items empty_medium (keysArrayName (instance_named ''s'')) = None"
    by (simp add: empty_medium_def)
  have 2: "faults empty_medium = []" by (simp add: empty_medium_def)
  from index_not_found[OF 1 2, of "''k''" VNull 0] 1
  show ?thesis by (simp add: instance_named)
qed

subsection \<open>C9: initialization returns its errors\<close>

text \<open>
  C9. \<open>initSync\<close> returns \<open>Error | undefined\<close> and never throws (in the model its result
  has no channel for a thrown exception: whatever the \<open>try\<close> block throws is returned).
  For every setup, every instance and every medium, whatever its calls will do: if the index
  read raises, that exception is returned; if the read succeeds, the index is absent and the
  write of the empty index raises, that exception is returned; if the read succeeds, caching
  is on and the stored index is not JSON, the \<open>SyntaxError\<close> of the cache load is returned;
  and in these three cases the content of the medium is unchanged. In every other case, which
  is when no call on the medium raises and the cache load does not fail, \<open>initSync\<close> returns
  no error, having written the empty index if the index was absent and nothing otherwise.
\<close>

theorem initSync_captures_exceptions:
  assumes "initSync setup this m = (e, this', m')"
  shows "(\<forall>n. outcome m 0 = Some n \<longrightarrow> e = Some (DOMException n) \<and> items m' = items m) \<and>
         (\<forall>n. outcome m 0 = None \<and> items m (keysArrayName this') = None \<and> outcome m 1 = Some n \<longrightarrow>
              e = Some (DOMException n) \<and> items m' = items m) \<and>
         (\<forall>s. outcome m 0 = None \<and> useCache this' \<and>
              items m (keysArrayName this') = Some (NotJson s) \<longrightarrow>
              e = Some SyntaxError \<and> items m' = items m) \<and>
         (outcome m 0 = None \<and> (items m (keysArrayName this') = None \<longrightarrow> outcome m 1 = None) \<and>
          \<not> (useCache this' \<and> (\<exists>s. items m (keysArrayName this') = Some (NotJson s))) \<longrightarrow>
            e = None \<and>
            (items m (keysArrayName this') = None \<longrightarrow>
               items m' = (items m)(keysArrayName this' \<mapsto> Json (JArray []))) \<and>
            (items m (keysArrayName this') \<noteq> None \<longrightarrow> items m' = items m))"
proof -
  let ?this3 = "this\<lparr>storageName := (case setup_name setup of None \<Rightarrow> defaultStorageName | Some n \<Rightarrow> n),
                      useCache := (case setup_useCache setup of None \<Rightarrow> defaultUseCache | Some b \<Rightarrow> b),
                      keysArrayName := ''__'' @ (case setup_name setup of None \<Rightarrow> defaultStorageName | Some n \<Rightarrow> n) @ ''-keys-array''\<rparr>"
  from assms obtain x where t: "initSync_try ?this3 m = (x, this', m')"
    and e: "e = (case x of Inl err \<Rightarrow> Some err | Inr u \<Rightarrow> None)"
    by (auto simp: initSync_def Let_def split: prod.splits sum.splits)
  from initSync_try_fields[OF t]
  have k: "keysArrayName ?this3 = keysArrayName this'" and u: "useCache ?this3 = useCache this'"
    by simp_all
  have 1: "e = Some (DOMException n) \<and> items m' = items m" if "outcome m 0 = Some n" for n
    using t e that by (auto simp: initSync_try_def getItem_outcome)
  have 2: "e = Some (DOMException n) \<and> items m' = items m"
    if "outcome m 0 = None" "items m (keysArrayName this') = None" "outcome m 1 = Some n" for n
    using t e that k by (auto simp: initSync_try_def getItem_outcome setItem_outcome outcome_tl)
  have 3: "e = Some SyntaxError \<and> items m' = items m"
    if "outcome m 0 = None" "useCache this'"
      "items m (keysArrayName this') = Some (NotJson s)" for s
    using t e that k u by (auto simp: initSync_try_def getItem_outcome JSON_parse_def)
  have 4: "e = None \<and>
            (items m (keysArrayName this') = None \<longrightarrow>
               items m' = (items m)(keysArrayName this' \<mapsto> Json (JArray []))) \<and>
            (items m (keysArrayName this') \<noteq> None \<longrightarrow> items m' = items m)"
    if "outcome m 0 = None" "items m (keysArrayName this') = None \<longrightarrow> outcome m 1 = None"
       "\<not> (useCache this' \<and> (\<exists>s. items m (keysArrayName this') = Some (NotJson s)))"
  proof (cases "items m (keysArrayName this')")
    case None
    with t e that k show ?thesis
      by (auto simp: initSync_try_def getItem_outcome setItem_outcome outcome_tl stringify_def of_string_array_def)
  next
    case (Some keysStr)
    with t e that k u show ?thesis
      by (cases keysStr) (auto simp: initSync_try_def getItem_outcome JSON_parse_def split: if_splits)
  qed
  have A: "\<forall>n. outcome m 0 = Some n \<longrightarrow> e = Some (DOMException n) \<and> items m' = items m"
    using 1 by blast
  have B: "\<forall>n. outcome m 0 = None \<and> items m (keysArrayName this') = None \<and> outcome m 1 = Some n \<longrightarrow>
              e = Some (DOMException n) \<and> items m' = items m"
    using 2 by blast
  have C: "\<forall>s. outcome m 0 = None \<and> useCache this' \<and>
              items m (keysArrayName this') = Some (NotJson s) \<longrightarrow>
              e = Some SyntaxError \<and> items m' = items m"
    using 3 by blast
  have D: "outcome m 0 = None \<and> (items m (keysArrayName this') = None \<longrightarrow> outcome m 1 = None) \<and>
          \<not> (useCache this' \<and> (\<exists>s. items m (keysArrayName this') = Some (NotJson s))) \<longrightarrow>
            e = None \<and>
            (items m (keysArrayName this') = None \<longrightarrow>
               items m' = (items m)(keysArrayName this' \<mapsto> Json (JArray []))) \<and>
            (items m (keysArrayName this') \<noteq> None \<longrightarrow> items m' = items m)"
  proof
    assume "outcome m 0 = None \<and>
            (items m (keysArrayName this') = None \<longrightarrow> outcome m 1 = None) \<and>
            \<not> (useCache this' \<and> (\<exists>s. items m (keysArrayName this') = Some (NotJson s)))"
    then have a: "outcome m 0 = None"
      "items m (keysArrayName this') = None \<longrightarrow> outcome m 1 = None"
      "\<not> (useCache this' \<and> (\<exists>s. items m (keysArrayName this') = Some (NotJson s)))"
      by simp_all
    from 4[OF a]
    show "e = None \<and>
            (items m (keysArrayName this') = None \<longrightarrow>
               items m' = (items m)(keysArrayName this' \<mapsto> Json (JArray []))) \<and>
            (items m (keysArrayName this') \<noteq> None \<longrightarrow> items m' = items m)" .
  qed
  show ?thesis by (rule conjI[OF A conjI[OF B conjI[OF C D]]])
qed

theorem initSync_captures_exceptions_witness:
  "fst (initSync plain new_LocalStorageInterface (empty_medium\<lparr>faults := [Some ''SecurityError'']\<rparr>))
     = Some (DOMException ''SecurityError'') \<and>
   fst (initSync plain new_LocalStorageInterface (empty_medium\<lparr>faults := [None, Some ''QuotaExceededError'']\<rparr>))
     = Some (DOMException ''QuotaExceededError'') \<and>
   fst (initSync caching new_LocalStorageInterface
          (empty_medium\<lparr>items := [''__s-keys-array'' \<mapsto> NotJson ''not json'']\<rparr>))
     = Some SyntaxError \<and>
   fst (initSync plain new_LocalStorageInterface empty_medium) = None \<and>
   items (snd (snd (initSync plain new_LocalStorageInterface empty_medium)))
     = [''__s-keys-array'' \<mapsto> Json (JArray [])]"
proof -
  have c: "initSync su new_LocalStorageInterface m =
    (fst (initSync su new_LocalStorageInterface m),
     fst (snd (initSync su new_LocalStorageInterface m)),
     snd (snd (initSync su new_LocalStorageInterface m)))" for su m by simp
  have k: "keysArrayName (fst (snd (initSync plain new_LocalStorageInterface m))) = ''__s-keys-array''"
    "keysArrayName (fst (snd (initSync caching new_LocalStorageInterface m))) = ''__s-keys-array''"
    "useCache (fst (snd (initSync caching new_LocalStorageInterface m)))" for m
    using initSync_fields[OF c[of plain m]] initSync_fields[OF c[of caching m]]
    by (simp_all add: plain_def caching_def)
  from initSync_captures_exceptions[OF c[of plain "empty_medium\<lparr>faults := [Some ''SecurityError'']\<rparr>"]]
  have 1: "fst (initSync plain new_LocalStorageInterface (empty_medium\<lparr>faults := [Some ''SecurityError'']\<rparr>))
     = Some (DOMException ''SecurityError'')"
    by (simp add: outcome_def)
  from initSync_captures_exceptions[OF c[of plain "empty_medium\<lparr>faults := [None, Some ''QuotaExceededError'']\<rparr>"]]
  have 2: "fst (initSync plain new_LocalStorageInterface (empty_medium\<lparr>faults := [None, Some ''QuotaExceededError'']\<rparr>))
     = Some (DOMException ''QuotaExceededError'')"
    by (simp add: k empty_medium_def outcome_def)
  from initSync_captures_exceptions[OF c[of caching "empty_medium\<lparr>items := [''__s-keys-array'' \<mapsto> NotJson ''not json'']\<rparr>"]]
  have 3: "fst (initSync caching new_LocalStorageInterface
          (empty_medium\<lparr>items := [''__s-keys-array'' \<mapsto> NotJson ''not json'']\<rparr>))
     = Some SyntaxError"
    by (simp add: k empty_medium_def outcome_def)
  from initSync_captures_exceptions[OF c[of plain empty_medium]]
  have 4: "fst (initSync plain new_LocalStorageInterface empty_medium) = None \<and>
   items (snd (snd (initSync plain new_LocalStorageInterface empty_medium)))
     = [''__s-keys-array'' \<mapsto> Json (JArray [])]"
    by (simp add: k empty_medium_def outcome_def)
  from 1 2 3 4 show ?thesis by blast
qed

subsection \<open>C10: a key set to undefined\<close>

text \<open>
  C10. In an initialized namespace on a medium that does not raise, take a key that is not
  the reserved one, is not in the key index and has no Entry (it was never set). Before
  \<open>set(key, undefined)\<close>, \<open>get\<close> returns \<open>undefined\<close>, \<open>size\<close> is the length of the index and
  \<open>keyAt\<close> at that position gives \<open>undefined\<close>. After it, the key is appended to the
  persisted index, an Entry record (the empty object) exists in the medium, \<open>size\<close> is one
  more, \<open>keyAt\<close> at that position returns the key, and \<open>get\<close> still returns \<open>undefined\<close>.
\<close>

theorem set_undefined_is_listed:
  assumes "initialized this m" "faults m = []" "persisted_keys this m = Some ks"
    "key \<noteq> keysArrayName this" "key \<notin> set ks" "items m (keyName this key) = None"
    "setItemSync this key VUndefined m = (r, this', m')"
  shows "r = Inr () \<and>
         persisted_keys this' m' = Some (ks @ [key]) \<and>
         items m' (keyName this key) = Some (Json (JObject [])) \<and>
         fst (sizeSync this m) = Inr (length ks) \<and>
         fst (sizeSync this' m') = Inr (length ks + 1) \<and>
         fst (keySync this (int (length ks)) m) = Inr None \<and>
         fst (keySync this' (int (length ks)) m') = Inr (Some key) \<and>
         fst (getItemSync this key m) = Inr VUndefined \<and>
         fst (getItemSync this' key m') = Inr VUndefined"
proof -
  note i = set_initialized[OF assms(1-4,7)]
  note h = set_holds[OF assms(1,2,4,7)]
  from i(2) assms(5) have pk: "persisted_keys this' m' = Some (ks @ [key])" by simp
  have e: "items m' (keyName this key) = Some (Json (JObject []))"
    using h(2,5) by (simp add: entry_holds_def stringify_def)
  have "useCache this \<Longrightarrow> keyValueCache this key = None"
  proof (rule ccontr)
    assume "useCache this" "keyValueCache this key \<noteq> None"
    with assms(1) obtain x where "persisted_value this m key = Some x"
      unfolding initialized_def mirror_agrees_def by blast
    with assms(6) show False by (simp add: persisted_value_def)
  qed
  with assms(6) have h0: "entry_holds this m key None" by (simp add: entry_holds_def)
  show ?thesis
    using h(1) pk e
    by (simp add: sizeSync_ok[OF assms(1-3)] sizeSync_ok[OF i(1,3) pk]
          keySync_ok[OF assms(1-3)] keySync_ok[OF i(1,3) pk]
          get_held[OF assms(2) h0] get_held[OF i(3) h(2)] JSON_roundtrip_def)
qed

theorem set_undefined_is_listed_witness:
  "initialized (fst two_keys) (snd two_keys) \<and>
   fst (setItemSync (fst two_keys) ''k'' VUndefined (snd two_keys)) = Inr () \<and>
   fst (sizeSync (fst two_keys) (snd two_keys)) = Inr 2 \<and>
   fst (sizeSync (fst (snd (setItemSync (fst two_keys) ''k'' VUndefined (snd two_keys))))
                 (snd (snd (setItemSync (fst two_keys) ''k'' VUndefined (snd two_keys))))) = Inr 3 \<and>
   fst (keySync (fst (snd (setItemSync (fst two_keys) ''k'' VUndefined (snd two_keys)))) 2
                (snd (snd (setItemSync (fst two_keys) ''k'' VUndefined (snd two_keys))))) = Inr (Some ''k'') \<and>
   fst (getItemSync (fst two_keys) ''k'' (snd two_keys)) = Inr VUndefined \<and>
   fst (getItemSync (fst (snd (setItemSync (fst two_keys) ''k'' VUndefined (snd two_keys)))) ''k''
                (snd (snd (setItemSync (fst two_keys) ''k'' VUndefined (snd two_keys))))) = Inr VUndefined"
proof -
  have c: "setItemSync (fst two_keys) ''k'' VUndefined (snd two_keys) =
    (fst (setItemSync (fst two_keys) ''k'' VUndefined (snd two_keys)),
     fst (snd (setItemSync (fst two_keys) ''k'' VUndefined (snd two_keys))),
     snd (snd (setItemSync (fst two_keys) ''k'' VUndefined (snd two_keys))))" by simp
  have 1: "''k'' \<noteq> keysArrayName (fst two_keys)" by (simp add: two_keys(4))
  have 2: "''k'' \<notin> set [''a'', ''b'']" by simp
  have 3: "items (snd two_keys) (keyName (fst two_keys) ''k'') = None"
    by code_simp
  from set_undefined_is_listed[OF two_keys(1-3) 1 2 3 c] two_keys(1)
  show ?thesis by simp
qed

end
